theory Spec2Isabelle
  imports Complex_Main "HOL-Library.Word" "HOL-Library.AList" "HOL-Library.Log_Nat"
begin

unbundle bit_operations_syntax

section \<open>The statevector simulator \<open>simulateCircuit\<close>\<close>

text \<open>
  The simulator is a single JavaScript module. Its numbers are IEEE 754 doubles; the
  model reads them as follows.
  \<^item> Amplitudes, probabilities, angles and random values are values of the type
    \<open>double\<close> below: a finite number, an infinity or NaN, with every operation rounding
    its exact result to the nearest double.
  \<^item> Qubit counts, loop counters and basis indices are integers. The bitwise operators
    \<open>&\<close>, \<open>|\<close>, \<open>^\<close> work on 32-bit two's complement values; on operands in that range
    they agree with \<open>AND\<close>, \<open>OR\<close>, \<open>XOR\<close> on \<open>int\<close>. The shift \<open>1 << k\<close> is the one
    operation that wraps, and it is written out in \<open>shl1\<close>.
  \<^item> A number that reaches a kernel as a qubit index is either an integer or something
    \<open>Number.isInteger\<close> rejects (a fraction, NaN, an infinity, \<open>undefined\<close>).
  Strings are ASCII.
\<close>

subsection \<open>Double-precision numbers\<close>

text \<open>
  A double is a finite number, \<open>+Infinity\<close>, \<open>-Infinity\<close> or \<open>NaN\<close>. The finite doubles
  are the numbers \<open>m * 2^e\<close> with \<open>m\<close> an integer below \<open>2^53\<close> in magnitude and
  \<open>e\<close> from \<open>-1074\<close> to \<open>971\<close>; the operations below return no other finite value. The
  two zeros of the format are the one value \<open>Fin 0\<close>: the program compares numbers
  with \<open><\<close>, \<open><=\<close> and \<open>>\<close>, tests them for truth, and divides only by constants and by
  values it has found positive, none of which tells \<open>-0\<close> from \<open>+0\<close>. A value \<open>Fin x\<close>
  with \<open>x\<close> off that grid is no double; the inputs of a run are taken to be on it.
\<close>

datatype double = Fin real | PInf | NInf | NaN

text \<open>The exponent of a number \<open>x \<noteq> 0\<close>: the \<open>k\<close> with \<open>2^k \<le> |x| < 2^(k+1)\<close>.\<close>

definition expo :: "real \<Rightarrow> int" where
  "expo x = (if 1 \<le> \<bar>x\<bar> then bitlen \<lfloor>\<bar>x\<bar>\<rfloor> - 1 else - bitlen (\<lceil>1 / \<bar>x\<bar>\<rceil> - 1))"

text \<open>The nearest integer, a tie going to the even one.\<close>

definition rne :: "real \<Rightarrow> int" where
  "rne q = (let f = \<lfloor>q\<rfloor>; d = q - of_int f
            in if d < 1 / 2 then f else if 1 / 2 < d then f + 1
               else if even f then f else f + 1)"

text \<open>
  Rounding to the nearest double, ties to even: 53 significant bits, or the multiples of
  \<open>2^-1074\<close> where the number is too small for that (so a number of magnitude up to
  \<open>2^-1075\<close> becomes 0), and an infinity where the rounded magnitude reaches \<open>2^1024\<close>.
\<close>

definition rd :: "real \<Rightarrow> double" where
  "rd x =
     (if x = 0 then Fin 0
      else
        let e = max (expo x - 52) (- 1074);
            y = of_int (rne (x / 2 powi e)) * 2 powi e
        in if 2 powi 1024 \<le> \<bar>y\<bar> then (if 0 < x then PInf else NInf) else Fin y)"

text \<open>The operators \<open>+\<close>, unary \<open>-\<close>, \<open>*\<close>, \<open><\<close>, \<open><=\<close> and the literals 0 and 1 on doubles.\<close>

instantiation double :: "{zero, one, plus, uminus, times, ord}"
begin

definition zero_double :: double where
  "zero_double = Fin 0"

definition one_double :: double where
  "one_double = Fin 1"

fun uminus_double :: "double \<Rightarrow> double" where
  "uminus_double (Fin x) = Fin (- x)"
| "uminus_double PInf = NInf"
| "uminus_double NInf = PInf"
| "uminus_double NaN = NaN"

fun plus_double :: "double \<Rightarrow> double \<Rightarrow> double" where
  "plus_double (Fin x) (Fin y) = rd (x + y)"
| "plus_double NaN b = NaN"
| "plus_double a NaN = NaN"
| "plus_double PInf NInf = NaN"
| "plus_double NInf PInf = NaN"
| "plus_double PInf b = PInf"
| "plus_double a PInf = PInf"
| "plus_double NInf b = NInf"
| "plus_double a NInf = NInf"

fun times_double :: "double \<Rightarrow> double \<Rightarrow> double" where
  "times_double (Fin x) (Fin y) = rd (x * y)"
| "times_double NaN b = NaN"
| "times_double a NaN = NaN"
| "times_double (Fin x) PInf = (if x = 0 then NaN else if 0 < x then PInf else NInf)"
| "times_double (Fin x) NInf = (if x = 0 then NaN else if 0 < x then NInf else PInf)"
| "times_double PInf (Fin y) = (if y = 0 then NaN else if 0 < y then PInf else NInf)"
| "times_double NInf (Fin y) = (if y = 0 then NaN else if 0 < y then NInf else PInf)"
| "times_double PInf PInf = PInf"
| "times_double NInf NInf = PInf"
| "times_double PInf NInf = NInf"
| "times_double NInf PInf = NInf"

fun less_double :: "double \<Rightarrow> double \<Rightarrow> bool" where
  "less_double (Fin x) (Fin y) \<longleftrightarrow> x < y"
| "less_double NaN b \<longleftrightarrow> False"
| "less_double a NaN \<longleftrightarrow> False"
| "less_double a NInf \<longleftrightarrow> False"
| "less_double PInf b \<longleftrightarrow> False"
| "less_double NInf b \<longleftrightarrow> True"
| "less_double a PInf \<longleftrightarrow> True"

fun less_eq_double :: "double \<Rightarrow> double \<Rightarrow> bool" where
  "less_eq_double (Fin x) (Fin y) \<longleftrightarrow> x \<le> y"
| "less_eq_double NaN b \<longleftrightarrow> False"
| "less_eq_double a NaN \<longleftrightarrow> False"
| "less_eq_double NInf b \<longleftrightarrow> True"
| "less_eq_double a PInf \<longleftrightarrow> True"
| "less_eq_double a NInf \<longleftrightarrow> False"
| "less_eq_double PInf b \<longleftrightarrow> False"

instance ..

end

text \<open>
  Binary \<open>-\<close> and \<open>/\<close>. A finite number over zero is an infinity of the sign of the
  numerator, as it is for \<open>+0\<close>.
\<close>

instantiation double :: "{minus, inverse}"
begin

definition minus_double :: "double \<Rightarrow> double \<Rightarrow> double" where
  "minus_double a b = a + (- b)"

fun divide_double :: "double \<Rightarrow> double \<Rightarrow> double" where
  "divide_double (Fin x) (Fin y) =
     (if y = 0 then (if x = 0 then NaN else if 0 < x then PInf else NInf) else rd (x / y))"
| "divide_double NaN b = NaN"
| "divide_double a NaN = NaN"
| "divide_double (Fin x) PInf = Fin 0"
| "divide_double (Fin x) NInf = Fin 0"
| "divide_double PInf (Fin y) = (if 0 \<le> y then PInf else NInf)"
| "divide_double NInf (Fin y) = (if 0 \<le> y then NInf else PInf)"
| "divide_double PInf b = NaN"
| "divide_double NInf b = NaN"

fun inverse_double :: "double \<Rightarrow> double" where
  "inverse_double (Fin y) = (if y = 0 then PInf else rd (1 / y))"
| "inverse_double PInf = Fin 0"
| "inverse_double NInf = Fin 0"
| "inverse_double NaN = NaN"

instance ..

end

text \<open>
  \<open>Math.SQRT2\<close> and \<open>Math.SQRT1_2\<close> are the doubles nearest to the square roots of 2 and
  of 1/2: \<open>0x1.6a09e667f3bcdp+0\<close> and \<open>0x1.6a09e667f3bcdp-1\<close>.
\<close>

definition SQRT2 :: double where
  "SQRT2 = Fin (6369051672525773 / 2 ^ 52)"

definition SQRT1_2 :: double where
  "SQRT1_2 = Fin (6369051672525773 / 2 ^ 53)"

text \<open>
  \<open>Math.sqrt\<close> is the rounded square root. \<open>Math.cos\<close> and \<open>Math.sin\<close> are fixed by the
  language on zero, the infinities and NaN only, and left to the implementation
  elsewhere; the model takes the rounded cosine and sine there. The examples call them
  on NaN and on \<open>2^-601\<close> and its negative only, where the results are NaN, 1 and the
  argument itself.
\<close>

fun Math_sqrt :: "double \<Rightarrow> double" where
  "Math_sqrt (Fin x) = (if x < 0 then NaN else rd (sqrt x))"
| "Math_sqrt PInf = PInf"
| "Math_sqrt NInf = NaN"
| "Math_sqrt NaN = NaN"

fun Math_cos :: "double \<Rightarrow> double" where
  "Math_cos (Fin x) = rd (cos x)"
| "Math_cos PInf = NaN"
| "Math_cos NInf = NaN"
| "Math_cos NaN = NaN"

fun Math_sin :: "double \<Rightarrow> double" where
  "Math_sin (Fin x) = rd (sin x)"
| "Math_sin PInf = NaN"
| "Math_sin NInf = NaN"
| "Math_sin NaN = NaN"

text \<open>\<open>x ? 1 : 0\<close> on a number: zero and NaN are false.\<close>

definition truthy :: "double \<Rightarrow> bool" where
  "truthy v \<longleftrightarrow> v \<noteq> Fin 0 \<and> v \<noteq> NaN"

subsection \<open>Complex helpers\<close>

datatype amp = C (re: double) (im: double)

definition cadd :: "amp \<Rightarrow> amp \<Rightarrow> amp" where
  "cadd a b = C (re a + re b) (im a + im b)"

definition cmul :: "amp \<Rightarrow> amp \<Rightarrow> amp" where
  "cmul a b = C (re a * re b - im a * im b) (re a * im b + im a * re b)"

subsection \<open>1-qubit matrices\<close>

text \<open>A matrix \<open>[[m00, m01], [m10, m11]]\<close> is the pair of its rows.\<close>

type_synonym mat = "(amp \<times> amp) \<times> (amp \<times> amp)"

definition m00 :: "mat \<Rightarrow> amp" where "m00 M = fst (fst M)"
definition m01 :: "mat \<Rightarrow> amp" where "m01 M = snd (fst M)"
definition m10 :: "mat \<Rightarrow> amp" where "m10 M = fst (snd M)"
definition m11 :: "mat \<Rightarrow> amp" where "m11 M = snd (snd M)"

definition ONE :: amp where "ONE = C 1 0"
definition ZERO :: amp where "ZERO = C 0 0"

definition Mx :: mat where "Mx = ((ZERO, ONE), (ONE, ZERO))"
definition My :: mat where "My = ((ZERO, C 0 (-1)), (C 0 1, ZERO))"
definition Mz :: mat where "Mz = ((ONE, ZERO), (ZERO, C (-1) 0))"
definition Mh :: mat where
  "Mh = (let s = 1 / SQRT2 in ((C s 0, C s 0), (C s 0, C (- s) 0)))"
definition Ms :: mat where "Ms = ((ONE, ZERO), (ZERO, C 0 1))"
definition Mt :: mat where "Mt = ((ONE, ZERO), (ZERO, C SQRT1_2 SQRT1_2))"

definition Mrx :: "double \<Rightarrow> mat" where
  "Mrx theta = (let c = Math_cos (theta / Fin 2); s = Math_sin (theta / Fin 2)
                in ((C c 0, C 0 (- s)), (C 0 (- s), C c 0)))"
definition Mry :: "double \<Rightarrow> mat" where
  "Mry theta = (let c = Math_cos (theta / Fin 2); s = Math_sin (theta / Fin 2)
                in ((C c 0, C (- s) 0), (C s 0, C c 0)))"
definition Mrz :: "double \<Rightarrow> mat" where
  "Mrz theta = (let p = theta / Fin 2
                in ((C (Math_cos (- p)) (Math_sin (- p)), ZERO),
                    (ZERO, C (Math_cos p) (Math_sin p))))"

subsection \<open>Numbers, arrays and loops of the source\<close>

text \<open>
  A qubit index as a kernel receives it: \<open>JInt k\<close> is the integer \<open>k\<close>, \<open>JNonInt\<close> any
  value for which \<open>Number.isInteger\<close> is false.
\<close>

datatype jsnum = JInt int | JNonInt

fun isInteger :: "jsnum \<Rightarrow> bool" where
  "isInteger (JInt k) = True"
| "isInteger JNonInt = False"

text \<open>The integer behind a number that has passed \<open>Number.isInteger\<close>.\<close>

fun int_of :: "jsnum \<Rightarrow> int" where
  "int_of (JInt k) = k"
| "int_of JNonInt = 0"

text \<open>
  \<open>1 << k\<close>: the shift count is taken modulo 32 and the result is a signed 32-bit
  integer, so \<open>1 << 31\<close> is negative and \<open>1 << 32\<close> is 1.
\<close>

definition shl1 :: "int \<Rightarrow> int" where
  "shl1 k = sint (push_bit (nat (k mod 32)) (1 :: 32 word))"

datatype error =
    RangeError          \<comment> \<open>\<open>new Array(N)\<close> with a negative length\<close>
  | TypeError           \<comment> \<open>a property of \<open>undefined\<close> is read\<close>
  | UndefinedAmplitude  \<comment> \<open>a kernel has copied \<open>undefined\<close> into the statevector\<close>

text \<open>
  \<open>xs[i]\<close>: reading outside the array yields \<open>undefined\<close>, here \<open>None\<close>. The kernels
  that compute with what they read (\<open>apply1\<close>, \<open>applyCY\<close>, \<open>applyCZ\<close>) raise a
  TypeError then. The swapping kernels store the \<open>undefined\<close> instead and go on with a
  statevector that is no longer an array of amplitudes; the model stops there with
  \<open>UndefinedAmplitude\<close> and does not follow such a run further.
\<close>

definition aget :: "'a list \<Rightarrow> int \<Rightarrow> 'a option" where
  "aget xs i = (if 0 \<le> i \<and> i < int (length xs) then Some (xs ! nat i) else None)"

text \<open>
  \<open>xs[i] = v\<close> for an index inside the array. The kernels write where they have read,
  so the model writes only after both reads have found an amplitude.
\<close>

definition put :: "'a list \<Rightarrow> int \<Rightarrow> 'a \<Rightarrow> 'a list" where
  "put xs i v = xs[nat i := v]"

text \<open>
  \<open>for (let i = 0; i < size; i++) body\<close>, the body threading a value and stopping at
  the first error.
\<close>

primrec for_upto :: "nat \<Rightarrow> (int \<Rightarrow> 's \<Rightarrow> error + 's) \<Rightarrow> 's \<Rightarrow> error + 's" where
  "for_upto 0 body s = Inr s"
| "for_upto (Suc k) body s =
     (case for_upto k body s of Inl e \<Rightarrow> Inl e | Inr s' \<Rightarrow> body (int k) s')"

definition for_loop :: "int \<Rightarrow> (int \<Rightarrow> 's \<Rightarrow> error + 's) \<Rightarrow> 's \<Rightarrow> error + 's" where
  "for_loop sz body s = for_upto (nat sz) body s"

subsection \<open>Core application kernels\<close>

text \<open>
  Each kernel copies the state (\<open>out = state.slice()\<close>), reads from \<open>state\<close> and writes
  to \<open>out\<close>. The source's variable \<open>size\<close> is \<open>sz\<close> here.
\<close>

definition apply1 :: "amp list \<Rightarrow> int \<Rightarrow> jsnum \<Rightarrow> mat \<Rightarrow> error + amp list" where
  "apply1 state n q M =
     (if \<not> isInteger q \<or> int_of q < 0 \<or> int_of q \<ge> n then Inr state
      else
        let sz = shl1 n; mask = shl1 (int_of q) in
        for_loop sz (\<lambda>i out.
          if i AND mask = 0 then
            let j = i OR mask in
            (case (aget state i, aget state j) of
               (Some a0, Some a1) \<Rightarrow>
                 let a0p = cadd (cmul (m00 M) a0) (cmul (m01 M) a1);
                     a1p = cadd (cmul (m10 M) a0) (cmul (m11 M) a1)
                 in Inr (put (put out i a0p) j a1p)
             | _ \<Rightarrow> Inl TypeError)
          else Inr out) state)"

definition valid2 :: "int \<Rightarrow> jsnum \<Rightarrow> jsnum \<Rightarrow> bool" where
  "valid2 n a b \<longleftrightarrow>
     isInteger a \<and> isInteger b \<and> int_of a \<ge> 0 \<and> int_of b \<ge> 0 \<and>
     int_of a < n \<and> int_of b < n \<and> a \<noteq> b"

text \<open>
  \<open>new Set([a,b,c]).size === 3\<close> asks for three distinct values. Two non-integers
  may or may not be the same value; the second conjunct is false for them either way.
\<close>

definition valid3 :: "int \<Rightarrow> jsnum \<Rightarrow> jsnum \<Rightarrow> jsnum \<Rightarrow> bool" where
  "valid3 n a b c \<longleftrightarrow>
     distinct [a, b, c] \<and>
     list_all (\<lambda>q. isInteger q \<and> int_of q \<ge> 0 \<and> int_of q < n) [a, b, c]"

text \<open>\<open>out[i] = state[j]; out[j] = state[i]\<close>\<close>

definition swap_into :: "amp list \<Rightarrow> amp list \<Rightarrow> int \<Rightarrow> int \<Rightarrow> error + amp list" where
  "swap_into state out i j =
     (case (aget state j, aget state i) of
        (Some aj, Some ai) \<Rightarrow> Inr (put (put out i aj) j ai)
      | _ \<Rightarrow> Inl UndefinedAmplitude)"

definition applyCX :: "amp list \<Rightarrow> int \<Rightarrow> jsnum \<Rightarrow> jsnum \<Rightarrow> error + amp list" where
  "applyCX state n control target =
     (if \<not> valid2 n control target then Inr state
      else
        let sz = shl1 n; cm = shl1 (int_of control); tm = shl1 (int_of target) in
        for_loop sz (\<lambda>i out.
          if i AND cm \<noteq> 0 \<and> i AND tm = 0 then
            let j = i OR tm in swap_into state out i j
          else Inr out) state)"

definition applyCY :: "amp list \<Rightarrow> int \<Rightarrow> jsnum \<Rightarrow> jsnum \<Rightarrow> error + amp list" where
  "applyCY state n control target =
     (if \<not> valid2 n control target then Inr state
      else
        let sz = shl1 n; cm = shl1 (int_of control); tm = shl1 (int_of target) in
        for_loop sz (\<lambda>i out.
          if i AND cm \<noteq> 0 \<and> i AND tm = 0 then
            let j = i OR tm in
            (case (aget state i, aget state j) of
               (Some a0, Some a1) \<Rightarrow>
                 Inr (put (put out i (cadd (cmul (m00 My) a0) (cmul (m01 My) a1)))
                          j (cadd (cmul (m10 My) a0) (cmul (m11 My) a1)))
             | _ \<Rightarrow> Inl TypeError)
          else Inr out) state)"

definition applyCZ :: "amp list \<Rightarrow> int \<Rightarrow> jsnum \<Rightarrow> jsnum \<Rightarrow> error + amp list" where
  "applyCZ state n control target =
     (if \<not> valid2 n control target then Inr state
      else
        let sz = shl1 n; cm = shl1 (int_of control); tm = shl1 (int_of target);
            both = cm OR tm in
        for_loop sz (\<lambda>i out.
          if i AND both = both then
            (case aget out i of
               Some a \<Rightarrow> Inr (put out i (C (- re a) (- im a)))
             | None \<Rightarrow> Inl TypeError)
          else Inr out) state)"

definition applySWAP :: "amp list \<Rightarrow> int \<Rightarrow> jsnum \<Rightarrow> jsnum \<Rightarrow> error + amp list" where
  "applySWAP state n q0 q1 =
     (if \<not> valid2 n q0 q1 then Inr state
      else if q0 = q1 then Inr state
      else
        let (a, b) = (if int_of q0 < int_of q1 then (int_of q0, int_of q1)
                      else (int_of q1, int_of q0));
            sz = shl1 n; am = shl1 a; bm = shl1 b in
        for_loop sz (\<lambda>i out.
          let ia = (if i AND am \<noteq> 0 then 1 else 0 :: int);
              ib = (if i AND bm \<noteq> 0 then 1 else 0 :: int) in
          if ia \<noteq> ib then
            let j = i XOR (am OR bm) in
            if i < j then swap_into state out i j else Inr out
          else Inr out) state)"

definition applyCCX :: "amp list \<Rightarrow> int \<Rightarrow> jsnum \<Rightarrow> jsnum \<Rightarrow> jsnum \<Rightarrow> error + amp list" where
  "applyCCX state n c1 c2 target =
     (if \<not> valid3 n c1 c2 target then Inr state
      else
        let sz = shl1 n; m1 = shl1 (int_of c1); m2 = shl1 (int_of c2);
            mt = shl1 (int_of target) in
        for_loop sz (\<lambda>i out.
          if i AND m1 \<noteq> 0 \<and> i AND m2 \<noteq> 0 \<and> i AND mt = 0 then
            let j = i OR mt in swap_into state out i j
          else Inr out) state)"

definition applyCSWAP :: "amp list \<Rightarrow> int \<Rightarrow> jsnum \<Rightarrow> jsnum \<Rightarrow> jsnum \<Rightarrow> error + amp list" where
  "applyCSWAP state n control q0 q1 =
     (if \<not> valid3 n control q0 q1 then Inr state
      else if q0 = q1 then Inr state
      else
        let sz = shl1 n; cm = shl1 (int_of control);
            a = shl1 (int_of q0); b = shl1 (int_of q1) in
        for_loop sz (\<lambda>i out.
          if i AND cm = 0 then Inr out
          else
            let ia = (if i AND a \<noteq> 0 then 1 else 0 :: int);
                ib = (if i AND b \<noteq> 0 then 1 else 0 :: int) in
            if ia \<noteq> ib then
              let j = i XOR (a OR b) in
              if i < j then swap_into state out i j else Inr out
            else Inr out) state)"


subsection \<open>Post-selection and sampling\<close>

definition normsq :: "amp \<Rightarrow> double" where
  "normsq a = re a * re a + im a * im a"

text \<open>
  \<open>postSelectByBit\<close> changes \<open>psi\<close> in place and returns a number or \<open>null\<close>; the model
  returns the new \<open>psi\<close> with it. No two slots of a statevector hold the same object
  (the kernels permute the slots or fill them with fresh values), so the in-place
  scaling \<open>psi[i].re *= norm\<close> touches every amplitude once.
\<close>

definition ps_step ::
    "int \<Rightarrow> int \<Rightarrow> nat \<Rightarrow> amp list \<times> double \<Rightarrow> amp list \<times> double" where
  "ps_step mask' expect i s =
     (let psi = fst s; keep = snd s;
          v = (if int i AND mask' \<noteq> 0 then 1 else 0 :: int)
      in if v \<noteq> expect then (psi[i := C 0 0], keep)
         else (psi, keep + normsq (psi ! i)))"

definition postSelectByBit ::
    "amp list \<Rightarrow> int \<Rightarrow> jsnum \<Rightarrow> int \<Rightarrow> amp list \<times> double option" where
  "postSelectByBit psi n bit' expect =
     (if \<not> isInteger bit' \<or> int_of bit' < 0 \<or> int_of bit' \<ge> n then (psi, None)
      else
        let mask = shl1 (int_of bit');
            (psi1, keep) = fold (ps_step mask expect) [0..<length psi] (psi, 0)
        in if keep \<le> 0 then (psi1, Some 0)
           else
             let norm = 1 / Math_sqrt keep
             in (map (\<lambda>a. C (re a * norm) (im a * norm)) psi1, Some keep))"

fun cdf_loop :: "double list \<Rightarrow> double \<Rightarrow> double list \<Rightarrow> double list \<times> double" where
  "cdf_loop [] s cdf = (cdf, s)"
| "cdf_loop (p # ps) s cdf = cdf_loop ps (s + p) (cdf @ [s + p])"

definition cdfFromProbs :: "double list \<Rightarrow> double list" where
  "cdfFromProbs probs =
     (let (cdf, s) = cdf_loop probs 0 []
      in if 0 < s then map (\<lambda>c. c / s) cdf else cdf)"

text \<open>
  The binary search of \<open>sampleIdx\<close>. \<open>(lo + hi) >> 1\<close> is a 32-bit operation; the sum
  stays below \<open>2^31\<close> for every array the simulator builds (at most \<open>2^30\<close> entries),
  where it is the integer half. A read past the array is \<open>undefined\<close>, and
  \<open>undefined < r\<close> is false.
\<close>

function sampleLoop :: "double list \<Rightarrow> double \<Rightarrow> int \<Rightarrow> int \<Rightarrow> int" where
  "sampleLoop cdf r lo hi =
     (if lo < hi then
        let mid = (lo + hi) div 2 in
        if (case aget cdf mid of Some c \<Rightarrow> c < r | None \<Rightarrow> False)
        then sampleLoop cdf r (mid + 1) hi
        else sampleLoop cdf r lo mid
      else lo)"
  by pat_completeness auto
termination
  by (relation "measure (\<lambda>(cdf, r, lo, hi). nat (hi - lo))") auto

definition sampleIdx :: "double list \<Rightarrow> double \<Rightarrow> int" where
  "sampleIdx cdf r = sampleLoop cdf r 0 (int (length cdf) - 1)"

subsection \<open>The random source\<close>

text \<open>
  The generator keeps an integer in a double. A double holds every integer up to \<open>2^53\<close>
  in magnitude; a larger one is rounded to 53 significant bits, ties to even. \<open>dbl\<close> is
  that rounding on integers.
\<close>

definition dbl :: "int \<Rightarrow> int" where
  "dbl x =
     (if \<bar>x\<bar> \<le> 2 ^ 53 then x
      else
        let e = nat (bitlen \<bar>x\<bar>) - 53;
            q = \<bar>x\<bar> div 2 ^ e;
            r = \<bar>x\<bar> mod 2 ^ e;
            half = 2 ^ (e - 1);
            q' = (if r > half \<or> (r = half \<and> odd q) then q + 1 else q)
        in sgn x * q' * 2 ^ e)"

text \<open>
  One call of the closure returned by \<open>mulberry32(a)\<close>. The captured \<open>a\<close> is a double
  that is never truncated (\<open>a += 0x6D2B79F5\<close>); the bitwise operators and \<open>Math.imul\<close>
  see it modulo \<open>2^32\<close>. The result is the pair of the value returned and the new \<open>a\<close>.
\<close>

definition mulberry32 :: "int \<Rightarrow> double \<times> int" where
  "mulberry32 a =
     (let a' = dbl (a + 0x6D2B79F5);
          t0 = (word_of_int a' :: 32 word);
          t1 = (t0 XOR drop_bit 15 t0) * (t0 OR 1);
          t2 = t1 XOR (t1 + (t1 XOR drop_bit 7 t1) * (t1 OR 61))
      in (Fin (real (unat (t2 XOR drop_bit 14 t2))) / Fin 4294967296, a'))"

text \<open>
  The generator \<open>rand\<close> of one call of the simulator: the seeded closure with its
  captured \<open>a\<close>, or \<open>Math.random\<close>. What \<open>Math.random\<close> returns is not determined by the
  program: \<open>env k\<close> is the value of its \<open>k\<close>-th call during the run.
\<close>

datatype rng = Mulberry int | MathRandom nat

definition mkRNG :: "int option \<Rightarrow> rng" where
  "mkRNG s = (case s of None \<Rightarrow> MathRandom 0 | Some a \<Rightarrow> Mulberry a)"

fun rand :: "(nat \<Rightarrow> double) \<Rightarrow> rng \<Rightarrow> double \<times> rng" where
  "rand env (Mulberry a) = (let (r, a') = mulberry32 a in (r, Mulberry a'))"
| "rand env (MathRandom k) = (env k, MathRandom (Suc k))"

subsection \<open>Readout noise\<close>

text \<open>
  A noise option: its \<open>type\<close> and the magnitude fields the source looks at, each as
  \<open>Number\<close> reads it (NaN for a text that is no number) and \<open>None\<close> when absent.
\<close>

record noise =
  noise_type :: string
  noise_p :: "double option"
  noise_prob :: "double option"
  noise_gamma :: "double option"
  noise_g :: "double option"

text \<open>\<open>Number(x ?? y ?? 0)\<close>\<close>

definition coalesce :: "double option \<Rightarrow> double option \<Rightarrow> double" where
  "coalesce x y = (case x of Some v \<Rightarrow> v | None \<Rightarrow> (case y of Some w \<Rightarrow> w | None \<Rightarrow> 0))"

text \<open>
  The loop of \<open>applyReadoutNoise\<close> over the characters of \<open>bits\<close>, most significant
  first, with the generator threaded through.
\<close>

fun noise_loop :: "(nat \<Rightarrow> double) \<Rightarrow> noise \<Rightarrow> string \<Rightarrow> rng \<Rightarrow> string \<times> rng" where
  "noise_loop env nz [] g = ([], g)"
| "noise_loop env nz (c # cs) g =
     (let b = (if c = CHR ''1'' then 1 else 0 :: int) in
      if noise_type nz = ''DEPOLARIZING'' \<or> noise_type nz = ''depolarizing'' then
        let p = coalesce (noise_p nz) (noise_prob nz);
            (r, g1) = rand env g;
            c' = (if r < p then (if b \<noteq> 0 then CHR ''0'' else CHR ''1'') else c);
            (rest, g2) = noise_loop env nz cs g1
        in (c' # rest, g2)
      else if noise_type nz = ''AMP-DAMP'' \<or> noise_type nz = ''amp-damp'' then
        let gm = coalesce (noise_gamma nz) (noise_g nz) in
        if b = 1 then
          let (r, g1) = rand env g;
              c' = (if r < gm then CHR ''0'' else c);
              (rest, g2) = noise_loop env nz cs g1
          in (c' # rest, g2)
        else
          let (rest, g2) = noise_loop env nz cs g in (c # rest, g2)
      else
        let (rest, g2) = noise_loop env nz cs g in (c # rest, g2))"

definition applyReadoutNoise ::
    "(nat \<Rightarrow> double) \<Rightarrow> string \<Rightarrow> noise \<Rightarrow> rng \<Rightarrow> string \<times> rng" where
  "applyReadoutNoise env bits nz g =
     (if noise_type nz = [] then (bits, g) else noise_loop env nz bits g)"

subsection \<open>The intermediate representation and the options\<close>

text \<open>
  One operation of \<open>ir.circuit.ops\<close>. \<open>op_targets\<close> is \<open>None\<close> when the field is
  absent, else the array of targets as \<open>Number\<close> reads them. \<open>op_theta\<close> is
  \<open>params.theta\<close> as \<open>Number\<close> reads it, so NaN for a text such as \<open>"pi/2"\<close>, and \<open>None\<close>
  when the field is absent or false (0, NaN, the empty text), where \<open>|| 0\<close> gives 0.
  \<open>op_expect\<close> is \<open>params.expect\<close> as \<open>Number\<close> reads it, \<open>None\<close> when absent. An absent
  \<open>ref\<close> is the empty string and an absent \<open>tick\<close> is \<open>None\<close>.
\<close>

record op =
  op_type :: string
  op_ref :: string
  op_targets :: "jsnum list option"
  op_theta :: "double option"
  op_expect :: "double option"
  op_tick :: "int option"

record ir =
  circuit_qubits :: "int option"
  circuit_ops :: "op list"

record opts =
  opts_shots :: int
  opts_seed :: "int option"
  opts_noise :: "noise option"

record result =
  qubits :: int
  ops :: nat
  probs :: "double list"
  amps :: "amp list"
  counts :: "(string \<times> nat) list option"
  entangledLikely :: bool
  postSelectProb :: "double option"

subsection \<open>Strings\<close>

text \<open>
  \<open>toUpperCase\<close> on ASCII: a letter \<open>a\<close> to \<open>z\<close> (codes 97 to 122) loses 32, which is its
  bit 5; every other character stays.
\<close>

fun upper_char :: "char \<Rightarrow> char" where
  "upper_char (Char b0 b1 b2 b3 b4 b5 b6 b7) =
     (let k = (of_char (Char b0 b1 b2 b3 b4 b5 b6 b7) :: nat)
      in if 97 \<le> k \<and> k \<le> 122 then Char b0 b1 b2 b3 b4 False b6 b7
         else Char b0 b1 b2 b3 b4 b5 b6 b7)"

definition toUpperCase :: "string \<Rightarrow> string" where
  "toUpperCase s = map upper_char s"

definition startsWith :: "string \<Rightarrow> string \<Rightarrow> bool" where
  "startsWith s pre \<longleftrightarrow> take (length pre) s = pre"

text \<open>\<open>idx.toString(2)\<close> for a non-negative integer, and \<open>padStart(n, "0")\<close>.\<close>

fun toString2 :: "nat \<Rightarrow> string" where
  "toString2 k =
     (if k < 2 then [if k = 0 then CHR ''0'' else CHR ''1'']
      else toString2 (k div 2) @ [if even k then CHR ''0'' else CHR ''1''])"

declare toString2.simps [simp del]

definition padStart :: "string \<Rightarrow> int \<Rightarrow> string" where
  "padStart s n = replicate (nat n - length s) CHR ''0'' @ s"

subsection \<open>The evolution loop\<close>

text \<open>\<open>t[k]\<close> on the array of targets: \<open>undefined\<close> past its end.\<close>

definition tget :: "jsnum list \<Rightarrow> nat \<Rightarrow> jsnum" where
  "tget t k = (if k < length t then t ! k else JNonInt)"

definition refNorm :: "string \<Rightarrow> string" where
  "refNorm r =
     (let ref = toUpperCase r in if startsWith ref ''GATE.'' then drop 5 ref else ref)"

text \<open>\<open>Number(op.params?.theta || 0)\<close>\<close>

definition theta_of :: "op \<Rightarrow> double" where
  "theta_of x = (case op_theta x of None \<Rightarrow> 0 | Some v \<Rightarrow> v)"

text \<open>\<open>psi = kernel(...)\<close>, with the flag as it is after the \<open>case\<close>.\<close>

definition with_flag :: "bool \<Rightarrow> error + amp list \<Rightarrow> error + amp list \<times> bool" where
  "with_flag e res = (case res of Inl err \<Rightarrow> Inl err | Inr psi \<Rightarrow> Inr (psi, e))"

text \<open>The body of the loop \<open>for (const op of ops)\<close> on \<open>psi\<close> and \<open>entangledLikely\<close>.\<close>

definition gate_step :: "int \<Rightarrow> op \<Rightarrow> amp list \<times> bool \<Rightarrow> error + amp list \<times> bool" where
  "gate_step n x s =
     (let psi = fst s; e = snd s in
      if op_type x \<noteq> ''gate'' then Inr (psi, e)
      else
        let rn = refNorm (op_ref x);
            t = (case op_targets x of None \<Rightarrow> [] | Some ts \<Rightarrow> ts)
        in
        if rn = ''X'' then with_flag e (apply1 psi n (tget t 0) Mx)
        else if rn = ''Y'' then with_flag e (apply1 psi n (tget t 0) My)
        else if rn = ''Z'' then with_flag e (apply1 psi n (tget t 0) Mz)
        else if rn = ''H'' then with_flag e (apply1 psi n (tget t 0) Mh)
        else if rn = ''S'' then with_flag e (apply1 psi n (tget t 0) Ms)
        else if rn = ''T'' then with_flag e (apply1 psi n (tget t 0) Mt)
        else if rn = ''RX'' then with_flag e (apply1 psi n (tget t 0) (Mrx (theta_of x)))
        else if rn = ''RY'' then with_flag e (apply1 psi n (tget t 0) (Mry (theta_of x)))
        else if rn = ''RZ'' then with_flag e (apply1 psi n (tget t 0) (Mrz (theta_of x)))
        else if rn = ''CX'' then with_flag True (applyCX psi n (tget t 0) (tget t 1))
        else if rn = ''CY'' then with_flag True (applyCY psi n (tget t 0) (tget t 1))
        else if rn = ''CZ'' then with_flag True (applyCZ psi n (tget t 0) (tget t 1))
        else if rn = ''SWAP'' then with_flag True (applySWAP psi n (tget t 0) (tget t 1))
        else if rn = ''CCX'' \<or> rn = ''CCNOT''
          then with_flag True (applyCCX psi n (tget t 0) (tget t 1) (tget t 2))
        else if rn = ''CSWAP''
          then with_flag True (applyCSWAP psi n (tget t 0) (tget t 1) (tget t 2))
        else Inr (psi, e))"

fun evolve :: "int \<Rightarrow> op list \<Rightarrow> amp list \<times> bool \<Rightarrow> error + amp list \<times> bool" where
  "evolve n [] s = Inr s"
| "evolve n (x # xs) s =
     (case gate_step n x s of Inl err \<Rightarrow> Inl err | Inr s' \<Rightarrow> evolve n xs s')"

subsection \<open>\<open>simulateCircuit\<close>\<close>

text \<open>\<open>x | 0\<close>: the signed 32-bit value of an integer.\<close>

definition toInt32 :: "int \<Rightarrow> int" where
  "toInt32 k = sint (word_of_int k :: 32 word)"

definition tick_of :: "op \<Rightarrow> int" where
  "tick_of x = (case op_tick x of None \<Rightarrow> 0 | Some k \<Rightarrow> k)"

definition is_postselect :: "op \<Rightarrow> bool" where
  "is_postselect x \<longleftrightarrow> op_type x = ''note'' \<and> op_ref x = ''postselect''"

text \<open>\<open>counts.set(bits, (counts.get(bits) || 0) + 1)\<close> on a \<open>Map\<close>, which keeps its keys in
  the order of their first insertion.\<close>

definition bump :: "(string \<times> nat) list \<Rightarrow> string \<Rightarrow> (string \<times> nat) list" where
  "bump cs bits =
     AList.update bits ((case map_of cs bits of None \<Rightarrow> 0 | Some c \<Rightarrow> c) + 1) cs"

text \<open>The loop \<open>for (let s = 0; s < shots; s++)\<close>, \<open>k\<close> iterations of it.\<close>

fun shots_loop ::
    "(nat \<Rightarrow> double) \<Rightarrow> int \<Rightarrow> double list \<Rightarrow> noise option \<Rightarrow> nat \<Rightarrow> rng \<Rightarrow>
     (string \<times> nat) list \<Rightarrow> (string \<times> nat) list" where
  "shots_loop env n cdf nz 0 g cs = cs"
| "shots_loop env n cdf nz (Suc k) g cs =
     (let (r, g1) = rand env g;
          idx = sampleIdx cdf r;
          bits = padStart (toString2 (nat idx)) n;
          (bits', g2) = (case nz of
                           None \<Rightarrow> (bits, g1)
                         | Some z \<Rightarrow> if noise_type z \<noteq> [] then applyReadoutNoise env bits z g1
                                     else (bits, g1))
      in shots_loop env n cdf nz k g2 (bump cs bits'))"

text \<open>The state \<open>|0...0>\<close> of \<open>N\<close> amplitudes.\<close>

definition init_state :: "int \<Rightarrow> amp list" where
  "init_state N = map (\<lambda>i. if i = 0 then C 1 0 else C 0 0) [0..<nat N]"

text \<open>\<open>val = Number(postNote.params?.expect ?? 1) ? 1 : 0\<close>\<close>

definition expect_of :: "op \<Rightarrow> int" where
  "expect_of x = (case op_expect x of None \<Rightarrow> 1 | Some v \<Rightarrow> if truthy v then 1 else 0)"

text \<open>
  The post-selection step: \<open>find\<close> runs on the list as it was given, not on the sorted
  copy.
\<close>

definition post_select :: "op list \<Rightarrow> amp list \<Rightarrow> int \<Rightarrow> amp list \<times> double option" where
  "post_select given psi n =
     (case find is_postselect given of
        None \<Rightarrow> (psi, None)
      | Some postNote \<Rightarrow>
          (case op_targets postNote of
             Some (b # bs) \<Rightarrow> postSelectByBit psi n b (expect_of postNote)
           | _ \<Rightarrow> (psi, None)))"

text \<open>\<open>n = Math.max(ir?.circuit?.qubits ?? 0, 0)\<close>\<close>

definition qubit_count :: "ir \<Rightarrow> int" where
  "qubit_count ir = max (case circuit_qubits ir of None \<Rightarrow> 0 | Some k \<Rightarrow> k) 0"

text \<open>
  \<open>env\<close> is what \<open>Math.random\<close> would return. The result is \<open>Inl\<close> when the call raises
  (or leaves the domain the model follows, see \<open>UndefinedAmplitude\<close>).
\<close>

definition simulateCircuit :: "(nat \<Rightarrow> double) \<Rightarrow> ir \<Rightarrow> opts \<Rightarrow> error + result" where
  "simulateCircuit env ir opts =
     (let shots = toInt32 (max 0 (opts_shots opts));
          nz = opts_noise opts;
          seed = map_option toInt32 (opts_seed opts);
          g = mkRNG seed;
          n = qubit_count ir;
          N = shl1 n;
          sorted = sort_key tick_of (circuit_ops ir)
      in
      if N < 0 then Inl RangeError
      else
        case evolve n sorted (init_state N, False) of
          Inl err \<Rightarrow> Inl err
        | Inr (psi1, e) \<Rightarrow>
            let (psi, psp) = post_select (circuit_ops ir) psi1 n;
                prs = map normsq psi;
                cs = (if shots > 0
                      then Some (shots_loop env n (cdfFromProbs prs) nz (nat shots) g [])
                      else None)
            in Inr \<lparr> qubits = n,
                     ops = length (filter (\<lambda>x. op_type x = ''gate'') sorted),
                     probs = prs, amps = psi, counts = cs,
                     entangledLikely = e, postSelectProb = psp \<rparr>)"


section \<open>Notions used in the statements\<close>

text \<open>
  A finite double is a finite value that rounding leaves as it is, and a finite
  amplitude has two of them. \<open>val\<close> is the number a finite double stands for.
\<close>

fun finite_double :: "double \<Rightarrow> bool" where
  "finite_double (Fin x) \<longleftrightarrow> rd x = Fin x"
| "finite_double PInf \<longleftrightarrow> False"
| "finite_double NInf \<longleftrightarrow> False"
| "finite_double NaN \<longleftrightarrow> False"




definition wsum :: "(amp \<Rightarrow> real) \<Rightarrow> amp list \<Rightarrow> real" where
  "wsum w psi = sum_list (map w psi)"



text \<open>
  A matrix that keeps the weight \<open>w\<close> of every pair of amplitudes with the property \<open>P\<close>
  it is applied to.
\<close>

definition isometric :: "(amp \<Rightarrow> bool) \<Rightarrow> (amp \<Rightarrow> real) \<Rightarrow> mat \<Rightarrow> bool" where
  "isometric P w M \<longleftrightarrow> (\<forall>a b. P a \<longrightarrow> P b \<longrightarrow>
     w (cadd (cmul (m00 M) a) (cmul (m01 M) b)) +
     w (cadd (cmul (m10 M) a) (cmul (m11 M) b)) = w a + w b)"

text \<open>
  The result of a kernel, or of one step of the evolution loop, is a state of the same
  length and the same sum of weights as \<open>psi\<close>.
\<close>

definition keeps :: "(amp \<Rightarrow> real) \<Rightarrow> amp list \<Rightarrow> error + amp list \<Rightarrow> bool" where
  "keeps w psi r \<longleftrightarrow>
     (\<exists>out. r = Inr out \<and> length out = length psi \<and> wsum w out = wsum w psi)"

definition keeps_flag ::
    "(amp \<Rightarrow> real) \<Rightarrow> amp list \<Rightarrow> error + amp list \<times> bool \<Rightarrow> bool" where
  "keeps_flag w psi r \<longleftrightarrow>
     (\<exists>psi' e'. r = Inr (psi', e') \<and> length psi' = length psi \<and> wsum w psi' = wsum w psi)"

text \<open>
  The gates whose matrix holds a rounded number: \<open>1/Math.SQRT2\<close>, \<open>Math.SQRT1_2\<close>, a
  cosine or a sine. The matrices of the other gates hold 0, 1, -1 and \<open>i\<close> only.
\<close>

definition rounding_names :: "string list" where
  "rounding_names = [''H'', ''T'', ''RX'', ''RY'', ''RZ'']"

text \<open>A qubit index that is not an integer of the range \<open>[0, n)\<close>.\<close>

definition bad_index :: "int \<Rightarrow> jsnum \<Rightarrow> bool" where
  "bad_index n q \<longleftrightarrow> (case q of JInt k \<Rightarrow> k < 0 \<or> n \<le> k | JNonInt \<Rightarrow> True)"

text \<open>
  The references the dispatch knows, as they are after \<open>refNorm\<close>, and the operations
  that reach a 2- or 3-qubit kernel, or no kernel at all.
\<close>

definition single_qubit_names :: "string list" where
  "single_qubit_names = [''X'', ''Y'', ''Z'', ''H'', ''S'', ''T'', ''RX'', ''RY'', ''RZ'']"

definition multi_qubit_names :: "string list" where
  "multi_qubit_names = [''CX'', ''CY'', ''CZ'', ''SWAP'', ''CCX'', ''CCNOT'', ''CSWAP'']"

definition is_gate :: "op \<Rightarrow> bool" where
  "is_gate x \<longleftrightarrow> op_type x = ''gate''"

definition rounding_gate :: "op \<Rightarrow> bool" where
  "rounding_gate x \<longleftrightarrow> is_gate x \<and> refNorm (op_ref x) \<in> set rounding_names"

definition multi_qubit_gate :: "op \<Rightarrow> bool" where
  "multi_qubit_gate x \<longleftrightarrow> is_gate x \<and> refNorm (op_ref x) \<in> set multi_qubit_names"

definition unknown_gate :: "op \<Rightarrow> bool" where
  "unknown_gate x \<longleftrightarrow>
     is_gate x \<and> refNorm (op_ref x) \<notin> set (single_qubit_names @ multi_qubit_names)"

text \<open>
  What \<open>simulateCircuit\<close> does after the evolution loop, as a function of the number
  \<open>k\<close> of gate operations, the list as it was given and the outcome of the loop.
\<close>

definition finish ::
    "(nat \<Rightarrow> double) \<Rightarrow> opts \<Rightarrow> int \<Rightarrow> nat \<Rightarrow> op list \<Rightarrow> error + amp list \<times> bool \<Rightarrow>
     error + result" where
  "finish env opts n k given ev =
     (case ev of
        Inl err \<Rightarrow> Inl err
      | Inr (psi1, e) \<Rightarrow>
          let shots = toInt32 (max 0 (opts_shots opts));
              psi = fst (post_select given psi1 n);
              prs = map normsq psi
          in Inr \<lparr> qubits = n, ops = k, probs = prs, amps = psi,
                   counts = (if shots > 0
                      then Some (shots_loop env n (cdfFromProbs prs) (opts_noise opts)
                                   (nat shots) (mkRNG (map_option toInt32 (opts_seed opts))) [])
                      else None),
                   entangledLikely = e,
                   postSelectProb = snd (post_select given psi1 n) \<rparr>)"

text \<open>
  A bare gate name carries no \<open>gate.\<close> prefix. A spelling of the bare name \<open>g\<close> is
  any case variant of \<open>g\<close> or of \<open>gate.g\<close>. Two operations are \<open>respelled\<close> when
  they are equal, or are gates that differ in the reference only and reach the same
  branch of the dispatch.
\<close>

definition bare_name :: "string \<Rightarrow> bool" where
  "bare_name g \<longleftrightarrow> \<not> startsWith (toUpperCase g) ''GATE.''"

definition spelling_of :: "string \<Rightarrow> string \<Rightarrow> bool" where
  "spelling_of g r \<longleftrightarrow>
     toUpperCase r = toUpperCase g \<or> toUpperCase r = ''GATE.'' @ toUpperCase g"

definition respelled :: "op \<Rightarrow> op \<Rightarrow> bool" where
  "respelled x y \<longleftrightarrow>
     x = y \<or> (is_gate x \<and> y = x\<lparr>op_ref := op_ref y\<rparr> \<and>
               refNorm (op_ref x) = refNorm (op_ref y))"

text \<open>
  The bit of qubit \<open>b\<close> in the basis index \<open>i\<close> as the program reads it,
  \<open>(i & (1 << b)) ? 1 : 0\<close>, and the probability mass of the basis states where that
  bit is \<open>v\<close>: the sum of their \<open>re*re + im*im\<close> in doubles, added up from index 0 on as
  the program does. For \<open>b\<close> up to 30 the bit read is bit \<open>b\<close> of \<open>i\<close> (lemma
  \<open>js_bit_eq_bit\<close>).
\<close>

definition js_bit :: "nat \<Rightarrow> int \<Rightarrow> int" where
  "js_bit i b = (if int i AND shl1 b \<noteq> 0 then 1 else 0)"

text \<open>The mass counted and the state reached after \<open>k\<close> rounds of the first loop of \<open>postSelectByBit\<close>.\<close>

definition mass_upto :: "amp list \<Rightarrow> int \<Rightarrow> int \<Rightarrow> nat \<Rightarrow> double" where
  "mass_upto psi b v k =
     foldl (\<lambda>keep i. if js_bit i b = v then keep + normsq (psi ! i) else keep) 0 [0..<k]"

definition mass :: "amp list \<Rightarrow> int \<Rightarrow> int \<Rightarrow> double" where
  "mass psi b v = mass_upto psi b v (length psi)"

text \<open>
  A double that is not negative: NaN, \<open>+Infinity\<close>, zero or a finite value from
  \<open>2^-1074\<close>, the least positive double, on.
\<close>

definition min_double :: real where
  "min_double = 2 powi (- 1074)"

definition nonneg :: "double \<Rightarrow> bool" where
  "nonneg d \<longleftrightarrow> d = NaN \<or> d = PInf \<or> (\<exists>y. d = Fin y \<and> (y = 0 \<or> min_double \<le> y))"

definition projected :: "amp list \<Rightarrow> int \<Rightarrow> int \<Rightarrow> nat \<Rightarrow> amp list" where
  "projected psi b v k =
     map (\<lambda>i. if i < k \<and> js_bit i b \<noteq> v then C 0 0 else psi ! i) [0..<length psi]"

text \<open>
  Three doubles of the examples: \<open>1/Math.SQRT2\<close>, which is 0.7071067811865475, its
  square 0.4999999999999999, which is \<open>1/2 - 2^-53\<close>, and twice that.
\<close>

definition recip_SQRT2 :: double where
  "recip_SQRT2 = Fin (1592262918131443 / 2 ^ 51)"

definition below_half :: double where
  "below_half = Fin (4503599627370495 / 2 ^ 53)"

definition below_one :: double where
  "below_one = Fin (4503599627370495 / 2 ^ 52)"

text \<open>An angle and its half, so small that the square of the half is rounded to 0.\<close>

definition tiny_angle :: double where
  "tiny_angle = Fin (2 powi (- 600))"

definition tiny :: double where
  "tiny = Fin (2 powi (- 601))"

text \<open>
  Inputs of the examples: two sequences for \<open>Math.random\<close>, operations, a circuit and
  options.
\<close>

definition no_random :: "nat \<Rightarrow> double" where
  "no_random k = 0"

definition half_random :: "nat \<Rightarrow> double" where
  "half_random k = Fin (1 / 2)"

definition gate_op :: "string \<Rightarrow> jsnum list \<Rightarrow> int \<Rightarrow> op" where
  "gate_op r ts k =
     \<lparr> op_type = ''gate'', op_ref = r, op_targets = Some ts, op_theta = None,
       op_expect = None, op_tick = Some k \<rparr>"

definition rot_op :: "string \<Rightarrow> jsnum list \<Rightarrow> double \<Rightarrow> int \<Rightarrow> op" where
  "rot_op r ts theta k =
     \<lparr> op_type = ''gate'', op_ref = r, op_targets = Some ts, op_theta = Some theta,
       op_expect = None, op_tick = Some k \<rparr>"

definition postselect_note :: "jsnum list \<Rightarrow> double \<Rightarrow> int \<Rightarrow> op" where
  "postselect_note ts v k =
     \<lparr> op_type = ''note'', op_ref = ''postselect'', op_targets = Some ts, op_theta = None,
       op_expect = Some v, op_tick = Some k \<rparr>"

definition circuit :: "int \<Rightarrow> op list \<Rightarrow> ir" where
  "circuit n xs = \<lparr> circuit_qubits = Some n, circuit_ops = xs \<rparr>"

definition analytic :: opts where
  "analytic = \<lparr> opts_shots = 0, opts_seed = None, opts_noise = None \<rparr>"

definition seeded :: "int \<Rightarrow> int \<Rightarrow> opts" where
  "seeded s k = \<lparr> opts_shots = k, opts_seed = Some s, opts_noise = None \<rparr>"

section \<open>Rounding\<close>

lemma expo_unique:
  assumes "2 powi k \<le> \<bar>x\<bar>" "\<bar>x\<bar> < 2 powi (k + 1)"
  shows "expo x = k"
proof (cases "1 \<le> \<bar>x\<bar>")
  case True
  have k0: "0 \<le> k"
  proof (rule ccontr)
    assume "\<not> 0 \<le> k"
    then have "k + 1 \<le> 0" by simp
    then have "(2::real) powi (k + 1) \<le> 2 powi 0" by (intro power_int_increasing) simp_all
    with assms(2) True show False by simp
  qed
  define n where "n = \<lfloor>\<bar>x\<bar>\<rfloor>"
  have p: "(2::real) powi k = of_int (2 ^ nat k)" "(2::real) powi (k + 1) = of_int (2 ^ nat (k + 1))"
    using k0 by (simp_all add: power_int_def)
  have lo: "2 ^ nat k \<le> n" using assms(1) unfolding n_def p by (simp add: le_floor_iff)
  have hi: "n < 2 ^ nat (k + 1)" using assms(2) unfolding n_def p by (simp add: floor_less_iff)
  have n0: "0 < n" using lo by (smt (verit) zero_less_power)
  have "bitlen n \<le> k + 1" using hi n0 k0 by (simp add: bitlen_le_iff_power)
  moreover have "k + 1 \<le> bitlen n" using lo k0 by (simp add: bitlen_ge_iff_power nat_add_distrib)
  ultimately show ?thesis using True by (simp add: expo_def n_def)
next
  case False
  then have x1: "\<bar>x\<bar> < 1" by simp
  have xpos: "0 < \<bar>x\<bar>" using assms(1) by (smt (verit) zero_less_power_int)
  have k0: "k < 0"
  proof (rule ccontr)
    assume "\<not> k < 0"
    then have "(2::real) powi 0 \<le> 2 powi k" by (intro power_int_increasing) simp_all
    with assms(1) x1 show False by simp
  qed
  define j where "j = nat (- k - 1)"
  have kj: "k = - int j - 1" using k0 by (simp add: j_def)
  have nk: "nat (- k) = Suc j" "nat (- (k + 1)) = j" using kj by simp_all
  have p1: "(2::real) powi k = 1 / 2 ^ (j + 1)"
    using k0 nk by (simp add: power_int_def field_simps)
  have p2: "(2::real) powi (k + 1) = 1 / 2 ^ j"
  proof (cases "k + 1 = 0")
    case True
    then have "j = 0" using kj by simp
    with True show ?thesis by simp
  next
    case False
    then have "k + 1 < 0" using k0 by simp
    then show ?thesis using nk by (simp add: power_int_def field_simps)
  qed
  define c where "c = \<lceil>1 / \<bar>x\<bar>\<rceil>"
  have a: "1 / \<bar>x\<bar> \<le> 2 ^ (j + 1)" using assms(1) xpos unfolding p1
    by (simp add: field_simps)
  have b: "2 ^ j < 1 / \<bar>x\<bar>" using assms(2) xpos unfolding p2 by (simp add: field_simps)
  have "c \<le> 2 ^ (j + 1)" using a unfolding c_def by (simp add: ceiling_le_iff)
  moreover have "2 ^ j < c" using b unfolding c_def by (simp add: less_ceiling_iff)
  ultimately have lo: "2 ^ j \<le> c - 1" and hi: "c - 1 < 2 ^ (j + 1)" by simp_all
  have n0: "0 < c - 1" using lo by (smt (verit) zero_less_power)
  have "bitlen (c - 1) \<le> int j + 1" using hi n0 by (simp add: bitlen_le_iff_power nat_add_distrib)
  moreover have "int j + 1 \<le> bitlen (c - 1)" using lo by (simp add: bitlen_ge_iff_power nat_add_distrib)
  ultimately show ?thesis using False by (simp add: expo_def c_def kj)
qed


lemma rne_eqI: "\<bar>q - of_int m\<bar> < 1 / 2 \<Longrightarrow> rne q = m"
proof -
  assume a: "\<bar>q - of_int m\<bar> < 1 / 2"
  show ?thesis
  proof (cases "of_int m \<le> q")
    case True
    then have "\<lfloor>q\<rfloor> = m" using a by (intro floor_unique) auto
    then show ?thesis using a True by (simp add: rne_def Let_def)
  next
    case False
    then have "\<lfloor>q\<rfloor> = m - 1" using a by (intro floor_unique) auto
    then show ?thesis using a False by (simp add: rne_def Let_def)
  qed
qed

lemma rne_of_int: "rne (of_int m) = m"
  by (rule rne_eqI) simp

lemma rne_minus: "rne (- q) = - rne q"
proof (cases "q = of_int \<lfloor>q\<rfloor>")
  case True
  then obtain m where "q = of_int m" ..
  then show ?thesis using rne_of_int[of m] rne_of_int[of "- m"] by simp
next
  case False
  define f where "f = \<lfloor>q\<rfloor>"
  have lt: "of_int f < q" "q < of_int f + 1" using False by (auto simp: f_def less_le) linarith
  then have fm: "\<lfloor>- q\<rfloor> = - f - 1" by (intro floor_unique) auto
  show ?thesis
    using lt by (auto simp: rne_def Let_def fm f_def[symmetric])
qed

lemma rd_0: "rd 0 = Fin 0"
  by (simp add: rd_def)

lemma expo_minus: "expo (- x) = expo x"
  by (simp add: expo_def)

lemma rd_minus: "rd (- x) = - rd x"
  by (simp add: rd_def expo_minus rne_minus Let_def)

lemma pow2_pos: "0 < (2::real) powi e"
  by simp

lemma rd_eqI:
  assumes k: "2 powi k \<le> \<bar>x\<bar>" "\<bar>x\<bar> < 2 powi (k + 1)"
    and e: "e = max (k - 52) (- 1074)"
    and m: "\<bar>x / 2 powi e - of_int m\<bar> < 1 / 2"
    and y: "y = of_int m * 2 powi e"
    and b: "\<bar>y\<bar> < 2 powi 1024"
  shows "rd x = Fin y"
proof -
  have x0: "x \<noteq> 0" using k(1) pow2_pos[of k] by (smt (verit) abs_zero)
  have "expo x = k" using k by (rule expo_unique)
  moreover have "rne (x / 2 powi e) = m" using m by (rule rne_eqI)
  ultimately show ?thesis using x0 e y b by (simp add: rd_def Let_def)
qed


lemma expo_bounds:
  assumes "x \<noteq> 0"
  shows "2 powi expo x \<le> \<bar>x\<bar>" "\<bar>x\<bar> < 2 powi (expo x + 1)"
proof -
  define k where "k = \<lfloor>log 2 \<bar>x\<bar>\<rfloor>"
  have pos: "0 < \<bar>x\<bar>" using assms by simp
  have "of_int k \<le> log 2 \<bar>x\<bar>" by (simp add: k_def)
  then have "2 powr of_int k \<le> \<bar>x\<bar>" using pos by (simp add: le_log_iff)
  then have lo: "2 powi k \<le> \<bar>x\<bar>" by (simp add: powr_real_of_int')
  define k1 where "k1 = k + 1"
  have "log 2 \<bar>x\<bar> < of_int k1" unfolding k_def k1_def by linarith
  then have "\<bar>x\<bar> < 2 powr of_int k1" using pos by (simp add: log_less_iff)
  then have "\<bar>x\<bar> < 2 powi k1" by (simp add: powr_real_of_int')
  then have hi: "\<bar>x\<bar> < 2 powi (k + 1)" by (simp add: k1_def)
  have "expo x = k" using lo hi by (rule expo_unique)
  with lo hi show "2 powi expo x \<le> \<bar>x\<bar>" "\<bar>x\<bar> < 2 powi (expo x + 1)" by simp_all
qed

lemma rne_nonneg: "0 \<le> q \<Longrightarrow> 0 \<le> rne q"
  by (auto simp: rne_def Let_def)

lemma rne_zero_le: "rne q = 0 \<Longrightarrow> q \<le> 1 / 2"
proof -
  assume z: "rne q = 0"
  have f: "\<lfloor>q\<rfloor> = 0 \<or> \<lfloor>q\<rfloor> = - 1"
    using z by (auto simp: rne_def Let_def split: if_splits)
  show ?thesis
  proof (cases "\<lfloor>q\<rfloor> = 0")
    case True
    then show ?thesis using z by (auto simp: rne_def Let_def split: if_splits)
  next
    case False
    then have "\<lfloor>q\<rfloor> = - 1" using f by simp
    then have "q < 0" by linarith
    then show ?thesis by simp
  qed
qed

lemma rd_nonneg_cases:
  assumes "0 \<le> x"
  shows "rd x = PInf \<or> (\<exists>y. rd x = Fin y \<and> (y = 0 \<or> min_double \<le> y))"
proof (cases "x = 0")
  case True
  then show ?thesis by (simp add: rd_def)
next
  case False
  define e where "e = max (expo x - 52) (- 1074)"
  define m where "m = rne (x / 2 powi e)"
  have m0: "0 \<le> m" unfolding m_def using assms by (intro rne_nonneg) simp
  have e: "- 1074 \<le> e" by (simp add: e_def)
  define y :: real where "y = of_int m * 2 powi e"
  have r: "rd x = (if 2 powi 1024 \<le> \<bar>y\<bar> then PInf else Fin y)"
    using False assms by (simp add: rd_def Let_def e_def m_def y_def)
  show ?thesis
  proof (cases "m = 0")
    case True
    then show ?thesis using r by (simp add: y_def)
  next
    case False
    then have "1 \<le> m" using m0 by simp
    then have "(1::real) * 2 powi (- 1074) \<le> of_int m * 2 powi e"
      using e by (intro mult_mono power_int_increasing) simp_all
    then have "min_double \<le> y" by (simp only: y_def min_double_def mult_1)
    then show ?thesis using r by auto
  qed
qed

lemma rd_zero_small:
  assumes "0 \<le> x" "rd x = Fin 0"
  shows "x < min_double"
proof (cases "x = 0")
  case True
  then show ?thesis by (simp add: min_double_def)
next
  case False
  then have xp: "0 < x" using assms by simp
  define e where "e = max (expo x - 52) (- 1074)"
  define m where "m = rne (x / 2 powi e)"
  have "of_int m * (2::real) powi e = 0"
    using False assms(2) by (simp add: rd_def Let_def e_def m_def split: if_splits)
  then have "m = 0" by simp
  then have "x / 2 powi e \<le> 1 / 2" unfolding m_def by (rule rne_zero_le)
  then have xe: "x \<le> 2 powi e / 2" by (simp add: field_simps)
  have lo: "2 powi expo x \<le> x" using expo_bounds(1)[OF False] xp by simp
  show ?thesis
  proof (cases "expo x - 52 \<le> - 1074")
    case True
    then have "e = - 1074" by (simp add: e_def)
    with xe have "x \<le> min_double / 2" by (simp only: min_double_def)
    moreover have "0 < min_double" unfolding min_double_def by (rule pow2_pos)
    ultimately show ?thesis by linarith
  next
    case False
    then have "e = expo x - 52" by (simp add: e_def)
    moreover have "(2::real) powi (expo x - 52) \<le> 2 powi expo x"
      by (intro power_int_increasing) simp_all
    ultimately have "x \<le> 2 powi expo x / 2" using xe by simp
    with lo pow2_pos[of "expo x"] have False by linarith
    then show ?thesis ..
  qed
qed

lemma rd_exact:
  assumes x: "x = of_int m * 2 powi e" and m: "\<bar>m\<bar> < 2 ^ 53" and e: "- 1074 \<le> e" "e \<le> 971"
  shows "rd x = Fin x"
proof (cases "x = 0")
  case True
  then show ?thesis by (simp add: rd_def)
next
  case False
  define k where "k = expo x"
  define e' where "e' = max (k - 52) (- 1074)"
  have b: "2 powi k \<le> \<bar>x\<bar>" "\<bar>x\<bar> < 2 powi (k + 1)"
    unfolding k_def using expo_bounds[OF False] by simp_all
  have ax: "\<bar>x\<bar> = of_int \<bar>m\<bar> * 2 powi e" by (simp add: x abs_mult)
  have "of_int \<bar>m\<bar> < (2::real) ^ 53" using m by (metis of_int_less_numeral_power_cancel_iff)
  then have "\<bar>x\<bar> < 2 ^ 53 * 2 powi e" unfolding ax by (intro mult_strict_right_mono) simp_all
  also have "\<dots> = 2 powi (53 + e)" by (simp add: power_int_add)
  finally have up: "\<bar>x\<bar> < 2 powi (53 + e)" .
  have "k < 53 + e"
  proof (rule ccontr)
    assume "\<not> k < 53 + e"
    then have "(2::real) powi (53 + e) \<le> 2 powi k" by (intro power_int_increasing) simp_all
    with b(1) up show False by simp
  qed
  then have le: "e' \<le> e" using e by (simp add: e'_def)
  define j where "j = nat (e - e')"
  have ej: "e = e' + int j" using le by (simp add: j_def)
  have q: "x / 2 powi e' = of_int (m * 2 ^ j)"
    by (simp add: x ej power_int_add)
  have "\<bar>x\<bar> < 2 powi 1024"
  proof -
    have "(2::real) powi (53 + e) \<le> 2 powi 1024" using e by (intro power_int_increasing) simp_all
    with up show ?thesis by simp
  qed
  then show ?thesis
    using b by (intro rd_eqI[where k = k and e = e' and m = "m * 2 ^ j"])
      (simp_all add: e'_def[symmetric] q, simp add: x ej power_int_add)
qed

lemma rd_1: "rd 1 = Fin 1"
  by (rule rd_exact[where m = 1 and e = 0]) simp_all

lemma zero_double_add [simp]: "(0::double) + 0 = 0"
  by (simp add: zero_double_def rd_0)

lemma not_zero_less_zero [simp]: "\<not> (0::double) < 0"
  by (simp add: zero_double_def)

lemma zero_le_zero [simp]: "(0::double) \<le> 0"
  by (simp add: zero_double_def)

text \<open>Sums of squares are not negative, and are zero only when every term is.\<close>

lemma nonneg_rd: "0 \<le> x \<Longrightarrow> nonneg (rd x)"
  using rd_nonneg_cases[of x] by (auto simp: nonneg_def)

lemma nonneg_square: "nonneg (d * d)"
  by (cases d) (simp_all add: nonneg_rd, simp_all add: nonneg_def)

lemma finite_double_0 [simp]: "finite_double 0"
  by (simp add: zero_double_def rd_0)

lemma finite_double_1 [simp]: "finite_double 1"
  by (simp add: one_double_def rd_1)

lemma finite_double_arith:
  assumes "finite_double d"
  shows "d * 0 = 0" "0 * d = 0" "d * 1 = d" "1 * d = d"
    "d + 0 = d" "0 + d = d" "d - 0 = d" "0 - d = - d"
  using assms
  by (cases d; simp add: zero_double_def one_double_def minus_double_def rd_0 rd_minus)+

lemma finite_double_uminus: "finite_double d \<Longrightarrow> finite_double (- d)"
  by (cases d) (simp_all add: rd_minus)

lemma min_double_pos: "0 < min_double"
  unfolding min_double_def by (rule pow2_pos)

lemma nonneg_add:
  assumes "nonneg a" "nonneg b"
  shows "nonneg (a + b)" "a + b = 0 \<Longrightarrow> a = 0 \<and> b = 0"
proof -
  have nn: "0 \<le> x" if "x = 0 \<or> min_double \<le> x" for x
    using that min_double_pos by auto
  show "nonneg (a + b)"
  proof (cases a)
    case (Fin x)
    note a = this
    show ?thesis
    proof (cases b)
      case (Fin y)
      have "0 \<le> x + y" using assms a Fin nn[of x] nn[of y] by (simp add: nonneg_def)
      then show ?thesis using a Fin by (simp add: nonneg_rd)
    qed (use a assms in \<open>simp_all add: nonneg_def\<close>)
  next
    case PInf
    then show ?thesis using assms by (cases b) (simp_all add: nonneg_def)
  next
    case NInf
    then show ?thesis using assms by (simp add: nonneg_def)
  next
    case NaN
    then show ?thesis by (cases b) (simp_all add: nonneg_def)
  qed
  assume z: "a + b = 0"
  then obtain x y where ab: "a = Fin x" "b = Fin y"
    by (cases a; cases b) (simp_all add: zero_double_def)
  have xy: "x = 0 \<or> min_double \<le> x" "y = 0 \<or> min_double \<le> y"
    using assms by (simp_all add: ab nonneg_def)
  have "rd (x + y) = Fin 0" using z by (simp add: ab zero_double_def)
  then have "x + y < min_double" using nn[OF xy(1)] nn[OF xy(2)] by (intro rd_zero_small) simp_all
  with xy nn[OF xy(1)] nn[OF xy(2)] show "a = 0 \<and> b = 0" by (auto simp: ab zero_double_def)
qed

lemma nonneg_normsq: "nonneg (normsq a)"
  unfolding normsq_def by (intro nonneg_add(1) nonneg_square)

lemma nonneg_zero: "nonneg 0"
  by (simp add: nonneg_def zero_double_def)

section \<open>Shifts, masks and loops\<close>

text \<open>Up to 30 the shift is the power of two.\<close>

lemma uint_2p32: "k < 32 \<Longrightarrow> uint (2 ^ k :: 32 word) = 2 ^ k"
  by (rule uint_2p) (simp add: word_gt_0 )

lemma sint_2p: "k < 31 \<Longrightarrow> sint (2 ^ k :: 32 word) = 2 ^ k"
proof -
  assume k: "k < 31"
  have lt: "(2::int) ^ k < 2 ^ 31" using k by (intro power_strict_increasing) simp_all
  have u: "uint (2 ^ k :: 32 word) = 2 ^ k" using k by (simp add: uint_2p32)
  have "sint (2 ^ k :: 32 word) = signed_take_bit 31 (2 ^ k :: int)"
    by (simp add: sint_uint u)
  also have "\<dots> = 2 ^ k"
  proof (rule signed_take_bit_int_eq_self)
    show "- (2 ^ 31) \<le> (2::int) ^ k"
      by (rule order_trans[of _ 0]) simp_all
    show "(2::int) ^ k < 2 ^ 31" by (rule lt)
  qed
  finally show ?thesis .
qed

lemma shl1_pow: "0 \<le> k \<Longrightarrow> k \<le> 30 \<Longrightarrow> shl1 k = 2 ^ nat k"
  by (simp add: shl1_def sint_2p)

lemma shl1_0: "shl1 0 = 1" by (simp add: shl1_def)

lemma shl1_1: "shl1 1 = 2" by (simp add: shl1_def)

lemma shl1_2: "shl1 2 = 4" by (simp add: shl1_def)


lemma aget_in: "0 \<le> i \<Longrightarrow> i < int (length xs) \<Longrightarrow> aget xs i = Some (xs ! nat i)"
  by (simp add: aget_def)

lemma or_mask_facts:
  fixes i :: int
  assumes "0 \<le> i" "i < 2 ^ n" "q < n" "i AND 2 ^ q = 0"
  shows "0 \<le> i OR 2 ^ q" "i OR 2 ^ q < 2 ^ n" "i OR 2 ^ q \<noteq> i"
    "i AND NOT (2 ^ q) = i" "(i OR 2 ^ q) AND NOT (2 ^ q) = i"
proof -
  show "0 \<le> i OR 2 ^ q" using assms(1) by simp
  show "i OR 2 ^ q < 2 ^ n" using assms by (simp add: OR_upper)
  have nb: "\<not> bit i q" using assms(4) by (simp add: and_exp_eq_0_iff_not_bit)
  have "bit (i OR 2 ^ q) q" by (simp add: bit_simps)
  with nb show "i OR 2 ^ q \<noteq> i" by auto
  show "i AND NOT (2 ^ q) = i"
  proof (rule bit_eqI)
    fix m show "bit (i AND NOT (2 ^ q)) m = bit i m"
      using nb by (cases "m = q") (simp_all add: bit_simps)
  qed
  show "(i OR 2 ^ q) AND NOT (2 ^ q) = i"
  proof (rule bit_eqI)
    fix m show "bit ((i OR 2 ^ q) AND NOT (2 ^ q)) m = bit i m"
      using nb by (cases "m = q") (simp_all add: bit_simps)
  qed
qed

lemma xor_mask_facts:
  fixes i :: int
  assumes "0 \<le> i" "i < 2 ^ n" "a < n" "b < n"
  shows "0 \<le> i XOR (2 ^ a OR 2 ^ b)" "i XOR (2 ^ a OR 2 ^ b) < 2 ^ n"
    "(i XOR (2 ^ a OR 2 ^ b)) XOR (2 ^ a OR 2 ^ b) = i"
proof -
  show "0 \<le> i XOR (2 ^ a OR 2 ^ b)" using assms(1) by simp
  have "(2 ^ a OR 2 ^ b :: int) < 2 ^ n" using assms by (simp add: OR_upper)
  then show "i XOR (2 ^ a OR 2 ^ b) < 2 ^ n" using assms by (simp add: XOR_upper)
  show "(i XOR (2 ^ a OR 2 ^ b)) XOR (2 ^ a OR 2 ^ b) = i"
    by (simp add: xor.assoc)
qed

lemma sum_list_upd:
  fixes xs :: "real list"
  shows "k < length xs \<Longrightarrow> sum_list (xs[k := x]) = sum_list xs + x - xs ! k"
  by (induction xs arbitrary: k) (auto split: nat.splits)

lemma wsum_update:
  "k < length xs \<Longrightarrow> wsum w (xs[k := x]) = wsum w xs + w x - w (xs ! k)"
  by (simp add: wsum_def map_update sum_list_upd)

lemma for_upto_invariant:
  assumes "I 0 s"
    and "\<And>k t. k < m \<Longrightarrow> I k t \<Longrightarrow> \<exists>t'. body (int k) t = Inr t' \<and> I (Suc k) t'"
  shows "\<exists>t. for_upto m body s = Inr t \<and> I m t"
  using assms
proof (induction m)
  case 0
  then show ?case by simp
next
  case (Suc m)
  then obtain t where t: "for_upto m body s = Inr t" "I m t"
    by (metis less_Suc_eq)
  from Suc.prems(2)[of m t] t(2) obtain t' where "body (int m) t = Inr t'" "I (Suc m) t'"
    by auto
  with t show ?case by simp
qed

text \<open>
  A loop that rewrites disjoint pairs of slots, each pair keeping its weight. \<open>r\<close> maps
  both slots of a pair to the index at which the loop rewrites them, so a slot whose
  \<open>r\<close> is still ahead has not been written.
\<close>

lemma pair_loop_total:
  fixes state :: "amp list" and p r :: "int \<Rightarrow> int" and w :: "amp \<Rightarrow> real"
  assumes m: "m \<le> length state"
    and skip: "\<And>i out. 0 \<le> i \<Longrightarrow> i < int m \<Longrightarrow> \<not> sel i \<Longrightarrow> body i out = Inr out"
    and step: "\<And>i out. 0 \<le> i \<Longrightarrow> i < int m \<Longrightarrow> sel i \<Longrightarrow> length out = length state \<Longrightarrow>
        \<exists>u v. body i out = Inr (put (put out i u) (p i) v) \<and>
          w u + w v = w (state ! nat i) + w (state ! nat (p i))"
    and pr: "\<And>i. 0 \<le> i \<Longrightarrow> i < int m \<Longrightarrow> sel i \<Longrightarrow>
        0 \<le> p i \<and> p i < int (length state) \<and> p i \<noteq> i \<and> r i = i \<and> r (p i) = i"
  shows "\<exists>out. for_upto m body state = Inr out \<and> length out = length state \<and>
           wsum w out = wsum w state"
proof -
  define I where "I k out \<longleftrightarrow> length out = length state \<and> wsum w out = wsum w state \<and>
      (\<forall>x. 0 \<le> x \<longrightarrow> x < int (length state) \<longrightarrow> int k \<le> r x \<longrightarrow> out ! nat x = state ! nat x)"
    for k :: nat and out :: "amp list"
  have "\<exists>t. for_upto m body state = Inr t \<and> I m t"
  proof (rule for_upto_invariant)
    show "I 0 state" by (simp add: I_def)
  next
    fix k t assume k: "k < m" and inv: "I k t"
    show "\<exists>t'. body (int k) t = Inr t' \<and> I (Suc k) t'"
    proof (cases "sel (int k)")
      case False
      then have "body (int k) t = Inr t" using skip k by simp
      moreover have "I (Suc k) t" using inv by (auto simp: I_def)
      ultimately show ?thesis by blast
    next
      case True
      have len: "length t = length state" using inv by (simp add: I_def)
      from pr[of "int k"] True k
      have p: "0 \<le> p (int k)" "p (int k) < int (length state)" "p (int k) \<noteq> int k"
        "r (int k) = int k" "r (p (int k)) = int k" by auto
      from step[of "int k" t] True k len obtain u v where
        b: "body (int k) t = Inr (put (put t (int k) u) (p (int k)) v)" and
        n: "w u + w v = w (state ! k) + w (state ! nat (p (int k)))"
        by auto
      let ?j = "nat (p (int k))"
      have kl: "k < length state" using k m by simp
      have jl: "?j < length state" using p by simp
      have jk: "?j \<noteq> k" using p by auto
      have tk: "t ! k = state ! k" using inv p(4) kl by (auto simp: I_def dest: spec[of _ "int k"])
      have tj: "t ! ?j = state ! ?j"
        using inv p(1,2,5) by (auto simp: I_def dest: spec[of _ "p (int k)"])
      let ?t' = "t[k := u, ?j := v]"
      have "wsum w ?t' = wsum w state"
        using inv kl jl jk n tk tj len by (simp add: wsum_update I_def nth_list_update)
      moreover have "length ?t' = length state" using len by simp
      moreover have "\<forall>x. 0 \<le> x \<longrightarrow> x < int (length state) \<longrightarrow> int (Suc k) \<le> r x \<longrightarrow>
          ?t' ! nat x = state ! nat x"
      proof (intro allI impI)
        fix x assume x: "0 \<le> x" "x < int (length state)" "int (Suc k) \<le> r x"
        have "x \<noteq> int k" using x(3) p(4) by auto
        moreover have "x \<noteq> p (int k)" using x(3) p(5) by auto
        ultimately have "nat x \<noteq> k" "nat x \<noteq> ?j" using x(1) p(1) by auto
        moreover have "t ! nat x = state ! nat x" using inv x by (simp add: I_def)
        ultimately show "?t' ! nat x = state ! nat x" by simp
      qed
      ultimately have "I (Suc k) ?t'" by (simp add: I_def)
      with b show ?thesis by (auto simp: put_def)
    qed
  qed
  then show ?thesis by (auto simp: I_def)
qed

section \<open>The kernels and the sum of weights\<close>

text \<open>The three loop shapes of the kernels: a matrix on the pairs \<open>(i, i | 2^t)\<close>, a swap of them, a swap of \<open>(i, i ^ m)\<close>.\<close>

lemma or_matrix_loop_total:
  fixes sel :: "int \<Rightarrow> bool"
  assumes len: "length state = 2 ^ N" and t: "t < N" and M: "isometric P w M"
    and P: "\<forall>a\<in>set state. P a"
  shows "\<exists>out. for_upto (2 ^ N)
            (\<lambda>i out. if sel i \<and> i AND 2 ^ t = 0 then
                 let j = i OR 2 ^ t in
                 (case (aget state i, aget state j) of
                    (Some a0, Some a1) \<Rightarrow>
                      Inr (put (put out i (cadd (cmul (m00 M) a0) (cmul (m01 M) a1)))
                            j (cadd (cmul (m10 M) a0) (cmul (m11 M) a1)))
                  | _ \<Rightarrow> Inl TypeError)
               else Inr out) state
          = Inr out \<and> length out = length state \<and> wsum w out = wsum w state"
    (is "\<exists>out. for_upto _ ?body state = Inr out \<and> _")
proof (rule pair_loop_total[where sel = "\<lambda>i. sel i \<and> i AND 2 ^ t = 0"
      and p = "\<lambda>i. i OR 2 ^ t" and r = "\<lambda>x. x AND NOT (2 ^ t)"])
  show "2 ^ N \<le> length state" using len by simp
next
  fix i :: int and out :: "amp list"
  assume "0 \<le> i" "i < int (2 ^ N)" "\<not> (sel i \<and> i AND 2 ^ t = 0)"
  then show "?body i out = Inr out" by auto
next
  fix i :: int and out :: "amp list"
  assume i: "0 \<le> i" "i < int (2 ^ N)" "sel i \<and> i AND 2 ^ t = 0" "length out = length state"
  have i2: "i < 2 ^ N" using i(2) by simp
  note f = or_mask_facts[OF i(1) i2 t conjunct2[OF i(3)]]
  have a0: "aget state i = Some (state ! nat i)" using i len by (simp add: aget_in)
  have a1: "aget state (i OR 2 ^ t) = Some (state ! nat (i OR 2 ^ t))"
    using f(1,2) len by (simp add: aget_in)
  have "P (state ! nat i)" "P (state ! nat (i OR 2 ^ t))"
    using P i f len by (simp_all add: nat_less_iff)
  then show "\<exists>u v. ?body i out = Inr (put (put out i u) (i OR 2 ^ t) v) \<and>
        w u + w v = w (state ! nat i) + w (state ! nat (i OR 2 ^ t))"
    using M i(3) by (simp add: a0 a1 Let_def isometric_def) blast
next
  fix i :: int
  assume i: "0 \<le> i" "i < int (2 ^ N)" "sel i \<and> i AND 2 ^ t = 0"
  have i2: "i < 2 ^ N" using i(2) by simp
  note f = or_mask_facts[OF i(1) i2 t conjunct2[OF i(3)]]
  show "0 \<le> i OR 2 ^ t \<and> i OR 2 ^ t < int (length state) \<and> i OR 2 ^ t \<noteq> i \<and>
      i AND NOT (2 ^ t) = i \<and> (i OR 2 ^ t) AND NOT (2 ^ t) = i"
    using f len by simp
qed

lemma swap_into_in:
  "0 \<le> i \<Longrightarrow> i < int (length state) \<Longrightarrow> 0 \<le> j \<Longrightarrow> j < int (length state) \<Longrightarrow>
   swap_into state out i j = Inr (put (put out i (state ! nat j)) j (state ! nat i))"
  by (simp add: swap_into_def aget_in)

lemma or_swap_loop_total:
  fixes sel :: "int \<Rightarrow> bool"
  assumes len: "length state = 2 ^ N" and t: "t < N"
  shows "\<exists>out. for_upto (2 ^ N)
            (\<lambda>i out. if sel i \<and> i AND 2 ^ t = 0
                      then let j = i OR 2 ^ t in swap_into state out i j else Inr out) state
          = Inr out \<and> length out = length state \<and> wsum w out = wsum w state"
proof (rule pair_loop_total[where sel = "\<lambda>i. sel i \<and> i AND 2 ^ t = 0"
      and p = "\<lambda>i. i OR 2 ^ t" and r = "\<lambda>x. x AND NOT (2 ^ t)"])
  show "2 ^ N \<le> length state" using len by simp
next
  fix i :: int and out :: "amp list"
  assume "0 \<le> i" "i < int (2 ^ N)" "\<not> (sel i \<and> i AND 2 ^ t = 0)"
  then show "(if sel i \<and> i AND 2 ^ t = 0
         then let j = i OR 2 ^ t in swap_into state out i j else Inr out) = Inr out"
    by auto
next
  fix i :: int and out :: "amp list"
  assume i: "0 \<le> i" "i < int (2 ^ N)" "sel i \<and> i AND 2 ^ t = 0" "length out = length state"
  have i2: "i < 2 ^ N" using i(2) by simp
  note f = or_mask_facts[OF i(1) i2 t conjunct2[OF i(3)]]
  have "swap_into state out i (i OR 2 ^ t) =
      Inr (put (put out i (state ! nat (i OR 2 ^ t))) (i OR 2 ^ t) (state ! nat i))"
    using i f len by (intro swap_into_in) simp_all
  then show "\<exists>u v. (if sel i \<and> i AND 2 ^ t = 0
         then let j = i OR 2 ^ t in swap_into state out i j else Inr out) =
        Inr (put (put out i u) (i OR 2 ^ t) v) \<and>
        w u + w v = w (state ! nat i) + w (state ! nat (i OR 2 ^ t))"
    using i(3) by (simp add: Let_def) (metis add.commute)
next
  fix i :: int
  assume i: "0 \<le> i" "i < int (2 ^ N)" "sel i \<and> i AND 2 ^ t = 0"
  have i2: "i < 2 ^ N" using i(2) by simp
  note f = or_mask_facts[OF i(1) i2 t conjunct2[OF i(3)]]
  show "0 \<le> i OR 2 ^ t \<and> i OR 2 ^ t < int (length state) \<and> i OR 2 ^ t \<noteq> i \<and>
      i AND NOT (2 ^ t) = i \<and> (i OR 2 ^ t) AND NOT (2 ^ t) = i"
    using f len by simp
qed

lemma xor_swap_loop_total:
  fixes sel :: "int \<Rightarrow> bool"
  assumes len: "length state = 2 ^ N" and a: "a < N" and b: "b < N"
  shows "\<exists>out. for_upto (2 ^ N)
            (\<lambda>i out. if sel i \<and> i < i XOR (2 ^ a OR 2 ^ b)
                      then swap_into state out i (i XOR (2 ^ a OR 2 ^ b)) else Inr out) state
          = Inr out \<and> length out = length state \<and> wsum w out = wsum w state"
proof (rule pair_loop_total[where sel = "\<lambda>i. sel i \<and> i < i XOR (2 ^ a OR 2 ^ b)"
      and p = "\<lambda>i. i XOR (2 ^ a OR 2 ^ b)" and r = "\<lambda>x. min x (x XOR (2 ^ a OR 2 ^ b))"])
  show "2 ^ N \<le> length state" using len by simp
next
  fix i :: int and out :: "amp list"
  assume "0 \<le> i" "i < int (2 ^ N)" "\<not> (sel i \<and> i < i XOR (2 ^ a OR 2 ^ b))"
  then show "(if sel i \<and> i < i XOR (2 ^ a OR 2 ^ b)
         then swap_into state out i (i XOR (2 ^ a OR 2 ^ b)) else Inr out) = Inr out"
    by auto
next
  fix i :: int and out :: "amp list"
  assume i: "0 \<le> i" "i < int (2 ^ N)" "sel i \<and> i < i XOR (2 ^ a OR 2 ^ b)"
    "length out = length state"
  have i2: "i < 2 ^ N" using i(2) by simp
  note f = xor_mask_facts[OF i(1) i2 a b]
  let ?j = "i XOR (2 ^ a OR 2 ^ b)"
  have "swap_into state out i ?j = Inr (put (put out i (state ! nat ?j)) ?j (state ! nat i))"
    using i f len by (intro swap_into_in) simp_all
  then show "\<exists>u v. (if sel i \<and> i < ?j then swap_into state out i ?j else Inr out) =
        Inr (put (put out i u) ?j v) \<and>
        w u + w v = w (state ! nat i) + w (state ! nat ?j)"
    using i(3) by simp (metis add.commute)
next
  fix i :: int
  assume i: "0 \<le> i" "i < int (2 ^ N)" "sel i \<and> i < i XOR (2 ^ a OR 2 ^ b)"
  have i2: "i < 2 ^ N" using i(2) by simp
  note f = xor_mask_facts[OF i(1) i2 a b]
  let ?j = "i XOR (2 ^ a OR 2 ^ b)"
  have "min ?j (?j XOR (2 ^ a OR 2 ^ b)) = i" using i(3) f(3) by (simp add: min_def)
  then show "0 \<le> ?j \<and> ?j < int (length state) \<and> ?j \<noteq> i \<and>
      min i ?j = i \<and> min ?j (?j XOR (2 ^ a OR 2 ^ b)) = i"
    using f i(3) len by (simp add: min_def)
qed

lemma valid2_ints:
  assumes "valid2 n a b"
  obtains c t where "a = JInt c" "b = JInt t" "0 \<le> c" "c < n" "0 \<le> t" "t < n" "c \<noteq> t"
  using assms by (cases a; cases b) (auto simp: valid2_def)

lemma valid3_ints:
  assumes "valid3 n a b c"
  obtains x y z where "a = JInt x" "b = JInt y" "c = JInt z" "0 \<le> x" "x < n" "0 \<le> y" "y < n"
    "0 \<le> z" "z < n" "x \<noteq> y" "x \<noteq> z" "y \<noteq> z"
  using assms by (cases a; cases b; cases c) (auto simp: valid3_def)

text \<open>
  Each kernel, on a state of \<open>2^n\<close> amplitudes with \<open>n\<close> up to 30, returns a state of the
  same length and the same sum of weights, for a weight that the kernel's matrix keeps.
\<close>

lemma apply1_total:
  assumes n: "0 \<le> n" "n \<le> 30" and len: "length state = 2 ^ nat n"
    and M: "isometric P w M" and P: "\<forall>a\<in>set state. P a"
  shows "\<exists>out. apply1 state n q M = Inr out \<and> length out = length state \<and>
           wsum w out = wsum w state"
proof (cases "\<not> isInteger q \<or> int_of q < 0 \<or> int_of q \<ge> n")
  case True
  then show ?thesis by (simp add: apply1_def)
next
  case False
  then obtain k where q: "q = JInt k" "0 \<le> k" "k < n" by (cases q) auto
  have kn: "nat k < nat n" using q by simp
  have "apply1 state n q M = for_upto (2 ^ nat n)
      (\<lambda>i out. if True \<and> i AND 2 ^ nat k = 0 then
                 let j = i OR 2 ^ nat k in
                 (case (aget state i, aget state j) of
                    (Some a0, Some a1) \<Rightarrow>
                      Inr (put (put out i (cadd (cmul (m00 M) a0) (cmul (m01 M) a1)))
                            j (cadd (cmul (m10 M) a0) (cmul (m11 M) a1)))
                  | _ \<Rightarrow> Inl TypeError)
               else Inr out) state"
    using q n by (simp add: apply1_def for_loop_def shl1_pow Let_def nat_power_eq
        cong: if_cong option.case_cong)
  then show ?thesis
    using or_matrix_loop_total[OF len kn M P, of "\<lambda>i. True"] by simp
qed

lemma applyCX_total:
  assumes n: "0 \<le> n" "n \<le> 30" and len: "length state = 2 ^ nat n"
  shows "\<exists>out. applyCX state n control target = Inr out \<and> length out = length state \<and>
           wsum w out = wsum w state"
proof (cases "valid2 n control target")
  case False
  then show ?thesis by (simp add: applyCX_def)
next
  case True
  then obtain c t where q: "control = JInt c" "target = JInt t" "0 \<le> c" "c < n" "0 \<le> t" "t < n"
    by (rule valid2_ints)
  have tn: "nat t < nat n" using q by simp
  have "applyCX state n control target = for_upto (2 ^ nat n)
      (\<lambda>i out. if i AND 2 ^ nat c \<noteq> 0 \<and> i AND 2 ^ nat t = 0
                then let j = i OR 2 ^ nat t in swap_into state out i j else Inr out) state"
    using True q n by (simp add: applyCX_def for_loop_def shl1_pow Let_def nat_power_eq)
  then show ?thesis
    using or_swap_loop_total[OF len tn, of "\<lambda>i. i AND 2 ^ nat c \<noteq> 0"] by simp
qed

lemma applyCY_total:
  assumes n: "0 \<le> n" "n \<le> 30" and len: "length state = 2 ^ nat n"
    and M: "isometric P w My" and P: "\<forall>a\<in>set state. P a"
  shows "\<exists>out. applyCY state n control target = Inr out \<and> length out = length state \<and>
           wsum w out = wsum w state"
proof (cases "valid2 n control target")
  case False
  then show ?thesis by (simp add: applyCY_def)
next
  case True
  then obtain c t where q: "control = JInt c" "target = JInt t" "0 \<le> c" "c < n" "0 \<le> t" "t < n"
    by (rule valid2_ints)
  have tn: "nat t < nat n" using q by simp
  have "applyCY state n control target = for_upto (2 ^ nat n)
      (\<lambda>i out. if i AND 2 ^ nat c \<noteq> 0 \<and> i AND 2 ^ nat t = 0 then
                 let j = i OR 2 ^ nat t in
                 (case (aget state i, aget state j) of
                    (Some a0, Some a1) \<Rightarrow>
                      Inr (put (put out i (cadd (cmul (m00 My) a0) (cmul (m01 My) a1)))
                            j (cadd (cmul (m10 My) a0) (cmul (m11 My) a1)))
                  | _ \<Rightarrow> Inl TypeError)
               else Inr out) state"
    using True q n by (simp add: applyCY_def for_loop_def shl1_pow Let_def nat_power_eq)
  then show ?thesis
    using or_matrix_loop_total[OF len tn M P, of "\<lambda>i. i AND 2 ^ nat c \<noteq> 0"] by simp
qed

lemma applyCZ_total:
  assumes n: "0 \<le> n" "n \<le> 30" and len: "length state = 2 ^ nat n"
    and neg: "\<And>a. w (C (- re a) (- im a)) = w a"
  shows "\<exists>out. applyCZ state n control target = Inr out \<and> length out = length state \<and>
           wsum w out = wsum w state"
proof (cases "valid2 n control target")
  case False
  then show ?thesis by (simp add: applyCZ_def)
next
  case True
  define both where "both = shl1 (int_of control) OR shl1 (int_of target)"
  let ?body = "\<lambda>i out. if i AND both = both then
            (case aget out i of
               Some a \<Rightarrow> Inr (put out i (C (- re a) (- im a)))
             | None \<Rightarrow> Inl TypeError)
          else Inr out"
  have eq: "applyCZ state n control target = for_upto (2 ^ nat n) ?body state"
    using True n by (simp add: applyCZ_def for_loop_def shl1_pow Let_def nat_power_eq both_def)
  have "\<exists>t. for_upto (2 ^ nat n) ?body state = Inr t \<and>
          (\<lambda>k out. length out = length state \<and> wsum w out = wsum w state) (2 ^ nat n) t"
  proof (rule for_upto_invariant)
    show "length state = length state \<and> wsum w state = wsum w state" by simp
  next
    fix k :: nat and t :: "amp list"
    assume k: "k < 2 ^ nat n" and inv: "length t = length state \<and> wsum w t = wsum w state"
    have kl: "k < length t" using k inv len by simp
    then have a: "aget t (int k) = Some (t ! k)" by (simp add: aget_def)
    show "\<exists>t'. ?body (int k) t = Inr t' \<and> length t' = length state \<and> wsum w t' = wsum w state"
      using inv kl by (simp add: a put_def wsum_update neg)
  qed
  with eq show ?thesis by simp
qed

lemma applySWAP_total:
  assumes n: "0 \<le> n" "n \<le> 30" and len: "length state = 2 ^ nat n"
  shows "\<exists>out. applySWAP state n q0 q1 = Inr out \<and> length out = length state \<and>
           wsum w out = wsum w state"
proof (cases "valid2 n q0 q1")
  case False
  then show ?thesis by (simp add: applySWAP_def)
next
  case True
  then obtain x y where q: "q0 = JInt x" "q1 = JInt y" "0 \<le> x" "x < n" "0 \<le> y" "y < n" "x \<noteq> y"
    by (rule valid2_ints)
  define a where "a = (if x < y then x else y)"
  define b where "b = (if x < y then y else x)"
  have ab: "0 \<le> a" "a < n" "0 \<le> b" "b < n" using q by (auto simp: a_def b_def)
  have an: "nat a < nat n" and bn: "nat b < nat n" using ab by simp_all
  have "applySWAP state n q0 q1 = for_upto (2 ^ nat n)
      (\<lambda>i out. if (i AND 2 ^ nat a \<noteq> 0) \<noteq> (i AND 2 ^ nat b \<noteq> 0)
                    \<and> i < i XOR (2 ^ nat a OR 2 ^ nat b)
                then swap_into state out i (i XOR (2 ^ nat a OR 2 ^ nat b)) else Inr out) state"
    using True q n ab
    by (auto simp: applySWAP_def for_loop_def shl1_pow Let_def nat_power_eq a_def b_def
        fun_eq_iff intro!: arg_cong[where f = "\<lambda>f. for_upto _ f state"])
  then show ?thesis
    using xor_swap_loop_total[OF len an bn,
        of "\<lambda>i. (i AND 2 ^ nat a \<noteq> 0) \<noteq> (i AND 2 ^ nat b \<noteq> 0)"] by simp
qed

lemma applyCCX_total:
  assumes n: "0 \<le> n" "n \<le> 30" and len: "length state = 2 ^ nat n"
  shows "\<exists>out. applyCCX state n c1 c2 target = Inr out \<and> length out = length state \<and>
           wsum w out = wsum w state"
proof (cases "valid3 n c1 c2 target")
  case False
  then show ?thesis by (simp add: applyCCX_def)
next
  case True
  then obtain x y t where q: "c1 = JInt x" "c2 = JInt y" "target = JInt t"
    "0 \<le> x" "x < n" "0 \<le> y" "y < n" "0 \<le> t" "t < n"
    by (rule valid3_ints)
  have tn: "nat t < nat n" using q by simp
  have "applyCCX state n c1 c2 target = for_upto (2 ^ nat n)
      (\<lambda>i out. if (i AND 2 ^ nat x \<noteq> 0 \<and> i AND 2 ^ nat y \<noteq> 0) \<and> i AND 2 ^ nat t = 0
                then let j = i OR 2 ^ nat t in swap_into state out i j else Inr out) state"
    using True q n by (simp add: applyCCX_def for_loop_def shl1_pow Let_def nat_power_eq)
  then show ?thesis
    using or_swap_loop_total[OF len tn, of "\<lambda>i. i AND 2 ^ nat x \<noteq> 0 \<and> i AND 2 ^ nat y \<noteq> 0"]
    by simp
qed

lemma applyCSWAP_total:
  assumes n: "0 \<le> n" "n \<le> 30" and len: "length state = 2 ^ nat n"
  shows "\<exists>out. applyCSWAP state n control q0 q1 = Inr out \<and> length out = length state \<and>
           wsum w out = wsum w state"
proof (cases "valid3 n control q0 q1")
  case False
  then show ?thesis by (simp add: applyCSWAP_def)
next
  case True
  then obtain c x y where q: "control = JInt c" "q0 = JInt x" "q1 = JInt y"
    "0 \<le> c" "c < n" "0 \<le> x" "x < n" "0 \<le> y" "y < n" "x \<noteq> y"
    by (rule valid3_ints) auto
  have an: "nat x < nat n" and bn: "nat y < nat n" using q by simp_all
  have "applyCSWAP state n control q0 q1 = for_upto (2 ^ nat n)
      (\<lambda>i out. if (i AND 2 ^ nat c \<noteq> 0 \<and> (i AND 2 ^ nat x \<noteq> 0) \<noteq> (i AND 2 ^ nat y \<noteq> 0))
                    \<and> i < i XOR (2 ^ nat x OR 2 ^ nat y)
                then swap_into state out i (i XOR (2 ^ nat x OR 2 ^ nat y)) else Inr out) state"
    using True q n
    by (auto simp: applyCSWAP_def for_loop_def shl1_pow Let_def nat_power_eq
        fun_eq_iff intro!: arg_cong[where f = "\<lambda>f. for_upto _ f state"])
  then show ?thesis
    using xor_swap_loop_total[OF len an bn,
        of "\<lambda>i. i AND 2 ^ nat c \<noteq> 0 \<and> (i AND 2 ^ nat x \<noteq> 0) \<noteq> (i AND 2 ^ nat y \<noteq> 0)"] by simp
qed

lemma keeps_flag_if:
  "(c \<Longrightarrow> keeps_flag w psi a) \<Longrightarrow> (\<not> c \<Longrightarrow> keeps_flag w psi b) \<Longrightarrow>
   keeps_flag w psi (if c then a else b)"
  by simp

lemma keeps_flag_with_flag: "keeps w psi r \<Longrightarrow> keeps_flag w psi (with_flag f r)"
  by (auto simp: keeps_def keeps_flag_def with_flag_def)

lemma keeps_flag_same: "keeps_flag w psi (Inr (psi, e))"
  by (simp add: keeps_flag_def)

text \<open>
  One step of the loop keeps a sum of weights when the matrices of X, Y, Z and S keep the
  weight, and the matrix of the step too if it is one with a rounded entry.
\<close>

lemma gate_step_total:
  assumes n: "0 \<le> n" "n \<le> 30" and len: "length psi = 2 ^ nat n"
    and P: "\<forall>a\<in>set psi. P a"
    and neg: "\<And>a. w (C (- re a) (- im a)) = w a"
    and ex: "isometric P w Mx" "isometric P w My" "isometric P w Mz" "isometric P w Ms"
    and ro: "\<And>M. rounding_gate x \<Longrightarrow> isometric P w M"
  shows "\<exists>psi' e'. gate_step n x (psi, e) = Inr (psi', e') \<and> length psi' = length psi \<and>
           wsum w psi' = wsum w psi"
proof (cases "is_gate x")
  case False
  then show ?thesis by (simp add: gate_step_def is_gate_def Let_def)
next
  case True
  have r: "refNorm (op_ref x) = g \<Longrightarrow> g \<in> set rounding_names \<Longrightarrow> isometric P w M" for g M
    using ro True by (simp add: rounding_gate_def)
  have rH: "refNorm (op_ref x) = ''H'' \<Longrightarrow> isometric P w Mh"
    and rT: "refNorm (op_ref x) = ''T'' \<Longrightarrow> isometric P w Mt"
    and rX: "refNorm (op_ref x) = ''RX'' \<Longrightarrow> isometric P w (Mrx th)"
    and rY: "refNorm (op_ref x) = ''RY'' \<Longrightarrow> isometric P w (Mry th)"
    and rZ: "refNorm (op_ref x) = ''RZ'' \<Longrightarrow> isometric P w (Mrz th)" for th
    by (erule r, simp add: rounding_names_def)+
  have k1: "isometric P w M \<Longrightarrow> keeps w psi (apply1 psi n q M)" for q M
    using apply1_total[OF n len _ P] by (simp add: keeps_def)
  have k2: "keeps w psi (applyCX psi n a b)" "keeps w psi (applyCY psi n a b)"
    "keeps w psi (applyCZ psi n a b)" "keeps w psi (applySWAP psi n a b)" for a b
    using applyCX_total[OF n len] applyCY_total[OF n len ex(2) P]
      applyCZ_total[where w = w, OF n len neg] applySWAP_total[OF n len]
    by (simp_all add: keeps_def)
  have k3: "keeps w psi (applyCCX psi n a b c)" "keeps w psi (applyCSWAP psi n a b c)" for a b c
    using applyCCX_total[OF n len] applyCSWAP_total[OF n len] by (simp_all add: keeps_def)
  have "keeps_flag w psi (gate_step n x (psi, e))"
    unfolding gate_step_def Let_def fst_conv snd_conv
    by (intro keeps_flag_if keeps_flag_with_flag keeps_flag_same k1 k2 k3 ex rH rT rX rY rZ)
      assumption+
  then show ?thesis by (simp add: keeps_flag_def)
qed

text \<open>On up to 30 qubits every step, and so the loop, returns a state of the same length.\<close>

lemma isometric_trivial: "isometric (\<lambda>a. True) (\<lambda>a. 0) M"
  by (simp add: isometric_def)

lemma gate_step_returns:
  assumes n: "0 \<le> n" "n \<le> 30" and len: "length psi = 2 ^ nat n"
  shows "\<exists>psi' e'. gate_step n x (psi, e) = Inr (psi', e') \<and> length psi' = length psi"
  using gate_step_total[OF n len, where P = "\<lambda>a. True" and w = "\<lambda>a. 0" and x = x and e = e]
  by (auto simp: isometric_trivial)

lemma evolve_returns:
  assumes n: "0 \<le> n" "n \<le> 30"
  shows "length psi = 2 ^ nat n \<Longrightarrow>
         \<exists>psi' e'. evolve n xs (psi, e) = Inr (psi', e') \<and> length psi' = length psi"
proof (induction xs arbitrary: psi e)
  case Nil
  then show ?case by simp
next
  case (Cons x xs)
  from gate_step_returns[OF n Cons.prems, of x e] obtain psi1 e1 where
    s: "gate_step n x (psi, e) = Inr (psi1, e1)" "length psi1 = length psi" by blast
  from Cons.IH[of psi1 e1] s(2) Cons.prems obtain psi' e' where
    "evolve n xs (psi1, e1) = Inr (psi', e')" "length psi' = length psi1" by auto
  with s show ?case by simp
qed














lemma length_init_state: "length (init_state N) = nat N"
  by (simp add: init_state_def)




section \<open>The shape of \<open>simulateCircuit\<close>\<close>

lemma simulateCircuit_returns:
  assumes "\<not> shl1 (qubit_count ir) < 0"
    and "evolve (qubit_count ir) (sort_key tick_of (circuit_ops ir))
           (init_state (shl1 (qubit_count ir)), False) = Inr (psi1, e)"
  shows "\<exists>res. simulateCircuit env ir opts = Inr res \<and>
           qubits res = qubit_count ir \<and>
           ops res = length (filter (\<lambda>x. op_type x = ''gate'')
                               (sort_key tick_of (circuit_ops ir))) \<and>
           amps res = fst (post_select (circuit_ops ir) psi1 (qubit_count ir)) \<and>
           postSelectProb res = snd (post_select (circuit_ops ir) psi1 (qubit_count ir)) \<and>
           probs res = map normsq (amps res) \<and> entangledLikely res = e"
  using assms by (simp add: simulateCircuit_def Let_def case_prod_beta)

lemma simulateCircuit_InrD:
  assumes "simulateCircuit env ir opts = Inr res"
  shows "\<exists>psi1. evolve (qubit_count ir) (sort_key tick_of (circuit_ops ir))
           (init_state (shl1 (qubit_count ir)), False) = Inr (psi1, entangledLikely res) \<and>
           qubits res = qubit_count ir \<and>
           ops res = length (filter (\<lambda>x. op_type x = ''gate'')
                               (sort_key tick_of (circuit_ops ir))) \<and>
           amps res = fst (post_select (circuit_ops ir) psi1 (qubit_count ir)) \<and>
           postSelectProb res = snd (post_select (circuit_ops ir) psi1 (qubit_count ir)) \<and>
           probs res = map normsq (amps res)"
  using assms
  by (auto simp: simulateCircuit_def Let_def case_prod_beta split: if_splits sum.splits)

lemma simulateCircuit_total:
  assumes "qubit_count ir \<le> 30"
  shows "\<exists>res. simulateCircuit env ir opts = Inr res"
proof -
  have n: "0 \<le> qubit_count ir" by (simp add: qubit_count_def)
  have N: "shl1 (qubit_count ir) = 2 ^ nat (qubit_count ir)"
    using n assms by (rule shl1_pow)
  have "length (init_state (shl1 (qubit_count ir))) = 2 ^ nat (qubit_count ir)"
    by (simp add: length_init_state N nat_power_eq)
  from evolve_returns[OF n assms this] obtain psi e where
    "evolve (qubit_count ir) (sort_key tick_of (circuit_ops ir))
       (init_state (shl1 (qubit_count ir)), False) = Inr (psi, e)" by blast
  moreover have "\<not> shl1 (qubit_count ir) < 0" by (simp add: N)
  ultimately show ?thesis using simulateCircuit_returns by blast
qed

lemma simulateCircuit_finish:
  "simulateCircuit env ir opts =
     (if shl1 (qubit_count ir) < 0 then Inl RangeError
      else finish env opts (qubit_count ir)
             (length (filter is_gate (circuit_ops ir)))
             (circuit_ops ir)
             (evolve (qubit_count ir) (sort_key tick_of (circuit_ops ir))
                (init_state (shl1 (qubit_count ir)), False)))"
proof -
  have "length (filter (\<lambda>x. op_type x = ''gate'') (sort_key tick_of (circuit_ops ir))) =
        length (filter is_gate (circuit_ops ir))"
    by (simp add: filter_sort is_gate_def[abs_def])
  then show ?thesis
    by (simp add: simulateCircuit_def finish_def Let_def case_prod_beta
        split: sum.splits)
qed

lemma post_select_cong:
  "find is_postselect g1 = find is_postselect g2 \<Longrightarrow> post_select g1 psi n = post_select g2 psi n"
  by (simp add: post_select_def)

lemma finish_cong:
  "find is_postselect g1 = find is_postselect g2 \<Longrightarrow>
   finish env opts n k g1 ev = finish env opts n k g2 ev"
  by (simp add: finish_def post_select_cong[of g1 g2] cong: sum.case_cong)

lemma finish_Suc:
  "finish env opts n (Suc k) g ev = map_sum id (\<lambda>r. r\<lparr>ops := Suc (ops r)\<rparr>) (finish env opts n k g ev)"
  by (simp add: finish_def Let_def split: sum.splits)

text \<open>The flag, and the operations that leave the state as it is.\<close>

lemma with_flag_InrD: "with_flag f r = Inr (psi', e') \<Longrightarrow> e' = f"
  by (auto simp: with_flag_def split: sum.splits)

lemma gate_step_flag:
  assumes "gate_step n x (psi, e) = Inr (psi', e')"
  shows "e' = (e \<or> multi_qubit_gate x)"
proof (cases "is_gate x")
  case False
  with assms show ?thesis by (auto simp: gate_step_def multi_qubit_gate_def is_gate_def)
next
  case True
  show ?thesis
  proof (cases "refNorm (op_ref x) \<in> set multi_qubit_names")
    case True
    with \<open>is_gate x\<close> assms show ?thesis
      by (auto simp: gate_step_def multi_qubit_gate_def is_gate_def multi_qubit_names_def
          Let_def dest: with_flag_InrD)
  next
    case False
    with \<open>is_gate x\<close> assms show ?thesis
      by (auto simp: gate_step_def multi_qubit_gate_def is_gate_def multi_qubit_names_def
          Let_def dest: with_flag_InrD split: if_splits)
  qed
qed

lemma evolve_flag:
  "evolve n xs (psi, e) = Inr (psi', e') \<Longrightarrow> e' = (e \<or> (\<exists>x\<in>set xs. multi_qubit_gate x))"
proof (induction xs arbitrary: psi e)
  case Nil
  then show ?case by simp
next
  case (Cons x xs)
  from Cons.prems obtain psi1 e1 where s: "gate_step n x (psi, e) = Inr (psi1, e1)"
    and r: "evolve n xs (psi1, e1) = Inr (psi', e')"
    by (auto split: sum.splits)
  from gate_step_flag[OF s] Cons.IH[OF r] show ?case by auto
qed

lemma gate_step_unknown: "unknown_gate x \<Longrightarrow> gate_step n x s = Inr s"
  by (simp add: gate_step_def unknown_gate_def is_gate_def single_qubit_names_def
      multi_qubit_names_def Let_def)


lemma evolve_filter:
  "(\<And>x s. x \<in> set xs \<Longrightarrow> \<not> P x \<Longrightarrow> gate_step n x s = Inr s) \<Longrightarrow>
   evolve n (filter P xs) s = evolve n xs s"
  by (induction xs arbitrary: s) (auto split: sum.splits)

lemma evolve_sort_filter:
  assumes "\<And>x s. \<not> P x \<Longrightarrow> gate_step n x s = Inr s"
  shows "evolve n (sort_key tick_of xs) s = evolve n (sort_key tick_of (filter P xs)) s"
proof -
  have "evolve n (sort_key tick_of xs) s = evolve n (filter P (sort_key tick_of xs)) s"
    by (rule evolve_filter[symmetric]) (rule assms)
  then show ?thesis by (simp add: filter_sort)
qed

lemma find_append_not:
  "\<not> P u \<Longrightarrow> find P (pre @ u # post) = find P (pre @ post)"
  by (induction pre) auto

section \<open>Worked examples\<close>


lemma init_state_2: "init_state 2 = [C 1 0, C 0 0]"
  by (simp add: init_state_def upt_rec)

lemma init_state_4: "init_state 4 = [C 1 0, C 0 0, C 0 0, C 0 0]"
  by (simp add: init_state_def upt_rec)

lemma refNorm_X: "refNorm ''X'' = ''X''"
  by (simp add: refNorm_def toUpperCase_def startsWith_def)

lemma refNorm_H: "refNorm ''H'' = ''H''"
  by (simp add: refNorm_def toUpperCase_def startsWith_def)

text \<open>The doubles of the examples.\<close>

lemma finite_examples [simp]:
  "finite_double recip_SQRT2" "finite_double (- recip_SQRT2)" "finite_double SQRT1_2"
  "finite_double below_half" "finite_double below_one"
proof -
  show a: "finite_double recip_SQRT2"
    unfolding recip_SQRT2_def finite_double.simps
    by (rule rd_exact[where m = 1592262918131443 and e = "- 51"])
      (simp_all add: power_int_def power_one_over)
  then show "finite_double (- recip_SQRT2)" by (rule finite_double_uminus)
  show "finite_double SQRT1_2"
    unfolding SQRT1_2_def finite_double.simps
    by (rule rd_exact[where m = 6369051672525773 and e = "- 53"])
      (simp_all add: power_int_def power_one_over)
  show "finite_double below_half"
    unfolding below_half_def finite_double.simps
    by (rule rd_exact[where m = 4503599627370495 and e = "- 53"])
      (simp_all add: power_int_def power_one_over)
  show "finite_double below_one"
    unfolding below_one_def finite_double.simps
    by (rule rd_exact[where m = 4503599627370495 and e = "- 52"])
      (simp_all add: power_int_def power_one_over)
qed

lemma SQRT2_rounded: "rd (sqrt 2) = SQRT2" "rd (sqrt (1 / 2)) = SQRT1_2"
proof -
  have "(6369051672525773 - 1 / 2) / 2 ^ 52 < sqrt 2"
    by (rule real_less_rsqrt) (simp add: power2_eq_square)
  then have lo: "6369051672525773 - 1 / 2 < sqrt 2 * 4503599627370496"
    by (simp add: field_simps)
  have "sqrt 2 < (6369051672525773 + 1 / 2) / 2 ^ 52"
    by (rule real_less_lsqrt) (simp_all add: power2_eq_square)
  then have hi: "sqrt 2 * 4503599627370496 < 6369051672525773 + 1 / 2"
    by (simp add: field_simps)
  have near: "\<bar>sqrt 2 * 4503599627370496 - 6369051672525773\<bar> < 1 / 2"
    using lo hi by linarith
  have b: "1 \<le> sqrt 2" "sqrt 2 < 2" using lo hi by linarith+
  show "rd (sqrt 2) = SQRT2"
    unfolding SQRT2_def
  proof (rule rd_eqI[where k = 0 and m = 6369051672525773 and e = "- 52"])
    show "\<bar>sqrt 2 / 2 powi (- 52) - of_int 6369051672525773\<bar> < 1 / 2"
      using near by (simp add: power_int_def power_one_over)
  qed (use b in \<open>simp_all add: power_int_def power_one_over\<close>)
  have h: "sqrt (1 / 2) = sqrt 2 / 2"
    by (simp add: real_sqrt_divide real_div_sqrt)
  show "rd (sqrt (1 / 2)) = SQRT1_2"
    unfolding SQRT1_2_def h
  proof (rule rd_eqI[where k = "- 1" and m = 6369051672525773 and e = "- 53"])
    show "\<bar>sqrt 2 / 2 / 2 powi (- 53) - of_int 6369051672525773\<bar> < 1 / 2"
      using near by (simp add: power_int_def power_one_over mult.commute)
  qed (use b in \<open>simp_all add: power_int_def power_one_over\<close>)
qed

lemma inv_SQRT2: "1 / SQRT2 = recip_SQRT2"
  unfolding one_double_def SQRT2_def recip_SQRT2_def divide_double.simps
  by (simp, rule rd_eqI[where k = "- 1" and m = 6369051672525772 and e = "- 53"])
    (simp_all add: power_int_def power_one_over)

lemma recip_SQRT2_square: "recip_SQRT2 * recip_SQRT2 = below_half"
  unfolding recip_SQRT2_def below_half_def times_double.simps
  by (rule rd_eqI[where k = "- 2" and m = 9007199254740990 and e = "- 54"])
    (simp_all add: power_int_def power_one_over)

lemma below_half_twice: "below_half + below_half = below_one"
  unfolding below_half_def below_one_def plus_double.simps
  by (rule rd_eqI[where k = "- 1" and m = 9007199254740990 and e = "- 53"])
    (simp_all add: power_int_def power_one_over)

lemma below_half_over: "below_half / below_one = Fin (1 / 2)"
  unfolding below_half_def below_one_def divide_double.simps
  by (simp, rule rd_eqI[where k = "- 1" and m = 4503599627370496 and e = "- 53"])
    (simp_all add: power_int_def power_one_over)

lemma below_one_over: "below_one / below_one = 1"
  unfolding below_one_def one_double_def divide_double.simps
  by (simp add: rd_1)

lemma below_one_pos: "0 < below_one"
  by (simp add: zero_double_def below_one_def)

lemma below_half_not_half: "below_half \<noteq> Fin (1 / 2)"
  by (simp add: below_half_def)

lemmas amp_simps = cadd_def cmul_def m00_def m01_def m10_def m11_def finite_double_arith

text \<open>One qubit: X, and H with two seeded shots.\<close>

lemma x_on_1: "apply1 [C 1 0, C 0 0] 1 (JInt 0) Mx = Inr [C 0 0, C 1 0]"
  by (simp add: apply1_def shl1_1 shl1_0 for_loop_def eval_nat_numeral aget_def put_def
      Mx_def ONE_def ZERO_def amp_simps Let_def)

lemma normsq_0: "normsq (C 0 0) = 0"
  by (simp add: normsq_def finite_double_arith)

lemma normsq_1: "normsq (C 1 0) = 1"
  by (simp add: normsq_def finite_double_arith)

lemma x_circuit:
  "simulateCircuit no_random (circuit 1 [gate_op ''X'' [JInt 0] 0]) analytic =
   Inr \<lparr> qubits = 1, ops = 1, probs = [0, 1], amps = [C 0 0, C 1 0], counts = None,
         entangledLikely = False, postSelectProb = None \<rparr>"
  by (simp add: simulateCircuit_def qubit_count_def circuit_def gate_op_def shl1_1
      init_state_2 gate_step_def refNorm_X tget_def x_on_1 with_flag_def analytic_def
      toInt32_def post_select_def is_postselect_def normsq_0 normsq_1)

lemma h_on_1:
  "apply1 [C 1 0, C 0 0] 1 (JInt 0) Mh = Inr [C recip_SQRT2 0, C recip_SQRT2 0]"
  by (simp add: apply1_def shl1_1 shl1_0 for_loop_def eval_nat_numeral aget_def put_def
      Mh_def inv_SQRT2 amp_simps Let_def)

lemma normsq_recip: "normsq (C recip_SQRT2 0) = below_half"
  by (simp add: normsq_def recip_SQRT2_square finite_double_arith)

lemma mulberry32_1: "mulberry32 1 = (Fin (2693262067 / 4294967296), 1831565814)"
proof -
  have "rd (2693262067 / 4294967296) = Fin (2693262067 / 4294967296)"
    by (rule rd_exact[where m = 2693262067 and e = "- 32"])
      (simp_all add: power_int_def power_one_over)
  then show ?thesis by (simp add: mulberry32_def dbl_def Let_def)
qed

lemma mulberry32_2: "mulberry32 1831565814 = (Fin (11749833 / 4294967296), 3663131627)"
proof -
  have "rd (11749833 / 4294967296) = Fin (11749833 / 4294967296)"
    by (rule rd_exact[where m = 11749833 and e = "- 32"])
      (simp_all add: power_int_def power_one_over)
  then show ?thesis by (simp add: mulberry32_def dbl_def Let_def)
qed

lemma sample_1: "sampleIdx [Fin (1 / 2), 1] (Fin (2693262067 / 4294967296)) = 1"
  by (simp add: sampleIdx_def aget_def)

lemma sample_2: "sampleIdx [Fin (1 / 2), 1] (Fin (11749833 / 4294967296)) = 0"
  by (simp add: sampleIdx_def aget_def)

lemma two_shots:
  "shots_loop env 1 [Fin (1 / 2), 1] None 2 (Mulberry 1) [] = [(''1'', 1), (''0'', 1)]"
  by (simp add: eval_nat_numeral mulberry32_1 mulberry32_2 sample_1 sample_2 padStart_def
      toString2.simps bump_def)

lemma cdf_halves: "cdfFromProbs [below_half, below_half] = [Fin (1 / 2), 1]"
  by (simp add: cdfFromProbs_def finite_double_arith below_half_twice below_one_pos
      below_half_over below_one_over)

lemma h_seeded:
  "simulateCircuit env (circuit 1 [gate_op ''H'' [JInt 0] 0]) (seeded 1 2) =
   Inr \<lparr> qubits = 1, ops = 1, probs = [below_half, below_half],
         amps = [C recip_SQRT2 0, C recip_SQRT2 0],
         counts = Some [(''1'', 1), (''0'', 1)],
         entangledLikely = False, postSelectProb = None \<rparr>"
  by (simp add: simulateCircuit_def qubit_count_def circuit_def gate_op_def shl1_1
      init_state_2 gate_step_def refNorm_H tget_def h_on_1 with_flag_def seeded_def
      toInt32_def post_select_def is_postselect_def normsq_recip cdf_halves
      mkRNG_def two_shots)

text \<open>Two qubits: H then CX.\<close>

lemma bell_h:
  "apply1 [C 1 0, C 0 0, C 0 0, C 0 0] 2 (JInt 0) Mh =
   Inr [C recip_SQRT2 0, C recip_SQRT2 0, C 0 0, C 0 0]"
  by (simp add: apply1_def shl1_2 shl1_0 for_loop_def eval_nat_numeral aget_def put_def
      Mh_def inv_SQRT2 amp_simps Let_def)

lemma bell_cx:
  "applyCX [C recip_SQRT2 0, C recip_SQRT2 0, C 0 0, C 0 0] 2 (JInt 0) (JInt 1) =
   Inr [C recip_SQRT2 0, C 0 0, C 0 0, C recip_SQRT2 0]"
  by (simp add: applyCX_def valid2_def shl1_2 shl1_0 shl1_1 for_loop_def eval_nat_numeral
      aget_def put_def swap_into_def Let_def)

text \<open>Post-selection notes on one qubit in the state \<open>|0>\<close>.\<close>

lemma truthy_1: "truthy 1" "\<not> truthy 0"
  by (simp_all add: truthy_def zero_double_def one_double_def)

lemma sqrt_1: "Math_sqrt 1 = 1" "(1::double) / 1 = 1" "\<not> (1::double) \<le> 0"
  by (simp_all add: one_double_def zero_double_def rd_1)

lemma two_notes:
  "simulateCircuit no_random
     (circuit 1 [postselect_note [JInt 0] 0 5, postselect_note [JInt 0] 1 1]) analytic =
   Inr \<lparr> qubits = 1, ops = 0, probs = [1, 0], amps = [C 1 0, C 0 0], counts = None,
         entangledLikely = False, postSelectProb = Some 1 \<rparr>"
  by (simp add: simulateCircuit_def qubit_count_def circuit_def postselect_note_def shl1_1
      init_state_2 gate_step_def analytic_def toInt32_def post_select_def is_postselect_def
      normsq_0 normsq_1 expect_of_def postSelectByBit_def shl1_0 ps_step_def upt_rec
      truthy_1 sqrt_1 finite_double_arith)

lemma one_note:
  "simulateCircuit no_random (circuit 1 [postselect_note [JInt 0] 1 1]) analytic =
   Inr \<lparr> qubits = 1, ops = 0, probs = [0, 0], amps = [C 0 0, C 0 0], counts = None,
         entangledLikely = False, postSelectProb = Some 0 \<rparr>"
  by (simp add: simulateCircuit_def qubit_count_def circuit_def postselect_note_def shl1_1
      init_state_2 gate_step_def analytic_def toInt32_def post_select_def is_postselect_def
      normsq_0 normsq_1 expect_of_def postSelectByBit_def shl1_0 ps_step_def upt_rec
      truthy_1 sqrt_1 finite_double_arith)

lemma refNorm_CX: "refNorm ''CX'' = ''CX''"
  by (simp add: refNorm_def toUpperCase_def startsWith_def)




lemma refNorm_rotations:
  "refNorm ''RX'' = ''RX''" "refNorm ''RY'' = ''RY''" "refNorm ''RZ'' = ''RZ''"
  by (simp_all add: refNorm_def toUpperCase_def startsWith_def)

text \<open>
  One qubit: RY with the angle \<open>2^-600\<close>. The cosine of half the angle rounds to 1 and
  the sine to the half angle itself, whose square is rounded to 0.
\<close>

lemma sin_near: "\<bar>sin x - x\<bar> \<le> \<bar>x\<bar> ^ 3 / 6" for x :: real
  using Maclaurin_sin_bound[of x 3]
  by (simp add: lessThan_nat_numeral sin_coeff_def fact_numeral)

lemma cos_near: "1 - x * x / 2 \<le> cos x" for x :: real
proof -
  have "cos x = 1 - 2 * sin (x / 2) ^ 2" using cos_double_sin[of "x / 2"] by simp
  moreover have "sin (x / 2) ^ 2 \<le> (x / 2) ^ 2"
    using abs_sin_x_le_abs_x[of "x / 2"] by (simp add: abs_le_square_iff[symmetric])
  ultimately show "1 - x * x / 2 \<le> cos x" by (simp add: power2_eq_square field_simps)
qed

lemma pow2_le: "i \<le> j \<Longrightarrow> (2::real) powi i \<le> 2 powi j"
  by (intro power_int_increasing) simp_all

lemma pow2_mult: "(2::real) powi i * 2 powi j = 2 powi (i + j)"
  by (simp add: power_int_add)

lemma finite_tiny: "finite_double tiny"
  unfolding tiny_def finite_double.simps
  by (rule rd_exact[where m = 1 and e = "- 601"]) simp_all

lemma tiny_half: "tiny_angle / Fin 2 = tiny"
proof -
  have "(2::real) powi (- 600) / 2 = 2 powi (- 600) * 2 powi (- 1)" by simp
  also have "\<dots> = 2 powi (- 601)" by (simp only: pow2_mult) simp
  finally have h: "(2::real) powi (- 600) / 2 = 2 powi (- 601)" .
  have "rd (2 powi (- 601)) = Fin (2 powi (- 601))"
    using finite_tiny by (simp only: tiny_def finite_double.simps)
  then show ?thesis
    by (simp only: tiny_angle_def tiny_def divide_double.simps h) simp
qed

lemma tiny_square: "tiny * tiny = 0"
proof -
  let ?x = "(2::real) powi (- 601) * 2 powi (- 601)"
  have x: "?x = 2 powi (- 1202)" by (simp only: pow2_mult) simp
  have "rd (2 powi (- 1202)) = Fin 0"
  proof (rule rd_eqI[where k = "- 1202" and e = "- 1074" and m = 0])
    have "(2::real) powi (- 1202) / 2 powi (- 1074) = 2 powi (- 1202) * 2 powi 1074"
      by (simp add: power_int_minus field_simps)
    also have "\<dots> = 2 powi (- 128)" by (simp only: pow2_mult) simp
    also have "\<dots> \<le> 2 powi (- 2)" by (rule pow2_le) simp
    finally show "\<bar>(2::real) powi (- 1202) / 2 powi (- 1074) - of_int 0\<bar> < 1 / 2"
      by (simp add: power_int_minus)
    show "\<bar>2 powi (- 1202)\<bar> < (2::real) powi (- 1202 + 1)"
      by (simp only: abs_of_pos[OF pow2_pos]) (rule power_int_strict_increasing, simp_all)
  qed simp_all
  then show ?thesis by (simp only: tiny_def times_double.simps x zero_double_def)
qed

lemma tiny_not_zero: "tiny \<noteq> 0"
  by (simp add: tiny_def zero_double_def)


lemma cos_tiny: "Math_cos tiny = 1"
proof -
  define t :: real where "t = 2 powi (- 601)"
  define y where "y = cos t"
  have tt: "t * t = 2 powi (- 1202)" unfolding t_def by (simp only: pow2_mult) simp
  have lo: "1 - 2 powi (- 1202) / 2 \<le> y" using cos_near[of t] by (simp add: y_def tt)
  have hi: "y \<le> 1" by (simp add: y_def)
  have small: "(2::real) powi (- 1202) \<le> 2 powi (- 55)" by (rule pow2_le) simp
  have "rd y = Fin 1"
  proof (cases "y = 1")
    case True
    then show ?thesis by (simp add: rd_1)
  next
    case False
    then have y1: "y < 1" using hi by simp
    have p55: "(2::real) powi (- 55) = 1 / 2 ^ 55" by (simp add: power_int_minus field_simps)
    have y2: "1 - 1 / 2 ^ 56 \<le> y" using lo small by (simp add: p55)
    show ?thesis
    proof (rule rd_eqI[where k = "- 1" and e = "- 53" and m = "2 ^ 53"])
      show "2 powi (- 1) \<le> \<bar>y\<bar>" using y2 by (simp add: power_int_minus)
      show "\<bar>y\<bar> < 2 powi (- 1 + 1)" using y1 y2 by simp
      show "\<bar>y / 2 powi (- 53) - of_int (2 ^ 53)\<bar> < 1 / 2"
        using y1 y2 by (simp add: power_int_minus field_simps)
    qed (simp_all add: power_int_minus)
  qed
  then show ?thesis by (simp only: tiny_def Math_cos.simps t_def y_def one_double_def)
qed

lemma sin_tiny: "Math_sin tiny = tiny"
proof -
  define t :: real where "t = 2 powi (- 601)"
  define y where "y = sin t"
  have t0: "0 < t" by (simp add: t_def)
  have t3: "t ^ 3 = 2 powi (- 1803)"
    unfolding t_def by (simp only: power3_eq_cube pow2_mult) simp
  have near: "\<bar>y - t\<bar> \<le> 2 powi (- 1803) / 6"
    using sin_near[of t] t0 by (simp add: y_def t3)
  have hi: "y \<le> t" unfolding y_def using t0 by (intro sin_x_le_x) simp
  have rt: "rd t = Fin t"
    using finite_tiny by (simp only: tiny_def finite_double.simps t_def)
  have "rd y = Fin t"
  proof (cases "y = t")
    case True
    then show ?thesis by (simp add: rt)
  next
    case False
    then have y1: "y < t" using hi by simp
    have "(2::real) powi (- 1803) \<le> 2 powi (- 602)" by (rule pow2_le) simp
    then have d: "t - y \<le> 2 powi (- 602) / 6" using near y1 by simp
    have t2: "t = 2 * 2 powi (- 602)"
    proof -
      have "2 * (2::real) powi (- 602) = 2 powi 1 * 2 powi (- 602)" by simp
      also have "\<dots> = 2 powi (- 601)" by (simp only: pow2_mult) simp
      finally show ?thesis by (simp add: t_def)
    qed
    have y2: "2 powi (- 602) \<le> y" using d t2 pow2_pos[of "- 602"] by linarith
    have y0: "0 < y" using y2 pow2_pos[of "- 602"] by linarith
    have q: "y / 2 powi (- 654) = y * 2 powi 654" by (simp add: power_int_minus field_simps)
    have tq: "t * 2 powi 654 = 2 ^ 53"
      unfolding t_def by (simp only: pow2_mult) simp
    have "(t - y) * 2 powi 654 \<le> 2 powi (- 1803) / 6 * 2 powi 654"
      using near y1 by (intro mult_right_mono) simp_all
    also have "\<dots> = 2 powi (- 1149) / 6"
    proof -
      have "(2::real) powi (- 1803) * 2 powi 654 = 2 powi (- 1149)"
        by (simp only: pow2_mult) simp
      then show ?thesis by simp
    qed
    also have "\<dots> \<le> 2 powi 0 / 6" by (intro divide_right_mono pow2_le) simp_all
    finally have c: "(t - y) * 2 powi 654 \<le> 1 / 6" by simp
    have c0: "0 \<le> (t - y) * 2 powi 654" using y1 by simp
    show ?thesis
    proof (rule rd_eqI[where k = "- 602" and e = "- 654" and m = "2 ^ 53"])
      show "2 powi (- 602) \<le> \<bar>y\<bar>" using y2 y0 by simp
      show "\<bar>y\<bar> < 2 powi (- 602 + 1)" using y1 y0 by (simp add: t_def)
      show "\<bar>y / 2 powi (- 654) - of_int (2 ^ 53)\<bar> < 1 / 2"
        using c c0 tq by (simp add: q algebra_simps)
      have "of_int (2 ^ 53) * (2::real) powi (- 654) = 2 powi 53 * 2 powi (- 654)" by simp
      also have "\<dots> = t" unfolding t_def by (simp only: pow2_mult) simp
      finally show "t = of_int (2 ^ 53) * 2 powi (- 654)" by simp
      have "t \<le> 2 powi 0" unfolding t_def by (rule pow2_le) simp
      moreover have "(2::real) powi 0 < 2 powi 1024" by (rule power_int_strict_increasing) simp_all
      ultimately show "\<bar>t\<bar> < 2 powi 1024" using t0 by simp
    qed simp
  qed
  then show ?thesis by (simp only: tiny_def Math_sin.simps t_def y_def)
qed

lemma ry_tiny: "apply1 [C 1 0, C 0 0] 1 (JInt 0) (Mry tiny_angle) = Inr [C 1 0, C tiny 0]"
  by (simp add: apply1_def shl1_1 shl1_0 for_loop_def eval_nat_numeral aget_def put_def
      Mry_def tiny_half cos_tiny sin_tiny finite_tiny finite_double_uminus amp_simps Let_def)





lemma normsq_tiny: "normsq (C tiny 0) = 0"
  by (simp add: normsq_def tiny_square finite_double_arith)


section \<open>The claims\<close>

subsection \<open>C1: the evolution loop keeps the norm\<close>




text \<open>
  The bound is sharp. For every qubit count above 30 the shift wraps, and the circuit
  with the one gate X on qubit \<open>n mod 32\<close>, a target that passes the range check,
  ends in an error: the array cannot be made (\<open>n mod 32 = 31\<close>) or the kernel reads
  past its end.
\<close>

lemma for_upto_first_error:
  "body 0 s = Inl e \<Longrightarrow> for_upto (Suc m) body s = Inl e"
  by (induction m) simp_all

lemma shl1_mod: "shl1 n = shl1 (n mod 32)"
  by (simp add: shl1_def)

lemma shl1_31: "shl1 31 = - 2147483648"
  by (simp add: shl1_def)

lemma no_statevector_above_30:
  assumes "30 < n"
  shows "\<exists>err. simulateCircuit env (circuit n [gate_op ''X'' [JInt (n mod 32)] 0]) opts = Inl err"
proof -
  let ?k = "n mod 32"
  let ?ir = "circuit n [gate_op ''X'' [JInt ?k] 0]"
  have q: "qubit_count ?ir = n" using assms by (simp add: qubit_count_def circuit_def)
  have k: "0 \<le> ?k" "?k \<le> 31" by simp_all
  show ?thesis
  proof (cases "?k = 31")
    case True
    then have "shl1 n < 0" using shl1_mod[of n] by (simp add: shl1_31)
    then show ?thesis unfolding simulateCircuit_finish q by simp
  next
    case False
    then have k30: "?k \<le> 30" using k by linarith
    have N: "shl1 n = 2 ^ nat ?k" using shl1_mod[of n] shl1_pow[OF k(1) k30] by simp
    have m: "shl1 ?k = 2 ^ nat ?k" by (rule shl1_pow[OF k(1) k30])
    have kn: "?k < n" using assms k30 by linarith
    let ?psi = "init_state (2 ^ nat ?k)"
    have len: "length ?psi = 2 ^ nat ?k" by (simp add: length_init_state nat_power_eq)
    obtain m' where m': "(2::nat) ^ nat ?k = Suc m'"
      by (metis not0_implies_Suc power_not_zero zero_neq_numeral)
    have a0: "aget ?psi 0 \<noteq> None" using len by (simp add: aget_def)
    have a1: "aget ?psi (0 OR 2 ^ nat ?k) = None" using len by (simp add: aget_def)
    let ?body = "\<lambda>i out.
          if i AND 2 ^ nat ?k = 0 then
            (case (aget ?psi i, aget ?psi (i OR 2 ^ nat ?k)) of
               (Some a0, Some a1) \<Rightarrow>
                 Inr (put (put out i (cadd (cmul (m00 Mx) a0) (cmul (m01 Mx) a1)))
                       (i OR 2 ^ nat ?k) (cadd (cmul (m10 Mx) a0) (cmul (m11 Mx) a1)))
             | _ \<Rightarrow> Inl TypeError)
          else Inr out"
    have nk: "(?k < 0) = False" by simp
    have eq: "apply1 ?psi n (JInt ?k) Mx = for_upto (Suc m') ?body ?psi"
      using kn by (simp add: apply1_def m for_loop_def nat_power_eq m' shl1_mod[of n]
          Let_def nk del: for_upto.simps cong: if_cong option.case_cong)
    have b0: "?body 0 ?psi = Inl TypeError"
      using a0 a1 by (auto split: option.splits)
    have "apply1 ?psi n (JInt ?k) Mx = Inl TypeError"
      unfolding eq by (rule for_upto_first_error) (rule b0)
    then have "evolve n [gate_op ''X'' [JInt ?k] 0] (?psi, False) = Inl TypeError"
      by (simp add: gate_step_def gate_op_def refNorm_X tget_def with_flag_def)
    moreover have "sort_key tick_of (circuit_ops ?ir) = [gate_op ''X'' [JInt ?k] 0]"
      by (simp add: circuit_def)
    ultimately have "evolve (qubit_count ?ir) (sort_key tick_of (circuit_ops ?ir))
        (init_state (shl1 (qubit_count ?ir)), False) = Inl TypeError"
      unfolding q N by simp
    then show ?thesis unfolding simulateCircuit_finish by (simp add: finish_def)
  qed
qed

subsection \<open>C2: the Bell state\<close>

text \<open>
  Claim C2, amended. On a 2-qubit circuit whose operations, put in tick order, are H on
  qubit 0 and then CX with control 0 and target 1 (in any accepted spelling, with any
  options), \<open>simulateCircuit\<close> returns the probability 0.4999999999999999, the double
  \<open>1/2 - 2^-53\<close> next but one below 1/2, at the indices 0 and 3 and the probability 0 at
  the indices 1 and 2, and \<open>entangledLikely\<close> true.
\<close>

theorem bell_state:
  assumes q: "circuit_qubits ir = Some 2"
    and xs: "sort_key tick_of (circuit_ops ir) = [h, cx]"
    and h: "op_type h = ''gate''" "refNorm (op_ref h) = ''H''" "op_targets h = Some [JInt 0]"
    and cx: "op_type cx = ''gate''" "refNorm (op_ref cx) = ''CX''"
      "op_targets cx = Some [JInt 0, JInt 1]"
  shows "\<exists>res. simulateCircuit env ir opts = Inr res \<and>
           probs res = [below_half, 0, 0, below_half] \<and> entangledLikely res"
proof -
  have n: "qubit_count ir = 2" using q by (simp add: qubit_count_def)
  have s1: "gate_step 2 h (init_state 4, False) =
      Inr ([C recip_SQRT2 0, C recip_SQRT2 0, C 0 0, C 0 0], False)"
    using h by (simp add: gate_step_def init_state_4 tget_def bell_h with_flag_def)
  have s2: "gate_step 2 cx ([C recip_SQRT2 0, C recip_SQRT2 0, C 0 0, C 0 0], False) =
      Inr ([C recip_SQRT2 0, C 0 0, C 0 0, C recip_SQRT2 0], True)"
    using cx by (simp add: gate_step_def tget_def bell_cx with_flag_def)
  have ev: "evolve (qubit_count ir) (sort_key tick_of (circuit_ops ir))
      (init_state (shl1 (qubit_count ir)), False) =
      Inr ([C recip_SQRT2 0, C 0 0, C 0 0, C recip_SQRT2 0], True)"
    unfolding n xs shl1_2 by (simp add: s1 s2)
  have "set (circuit_ops ir) = {h, cx}"
    using arg_cong[OF xs, of set] by simp
  then have np: "find is_postselect (circuit_ops ir) = None"
    using h(1) cx(1) by (auto simp: find_None_iff is_postselect_def)
  have "\<not> shl1 (qubit_count ir) < 0" by (simp add: n shl1_2)
  from simulateCircuit_returns[OF this ev, of env opts] obtain res where
    r: "simulateCircuit env ir opts = Inr res"
      "amps res = fst (post_select (circuit_ops ir)
         [C recip_SQRT2 0, C 0 0, C 0 0, C recip_SQRT2 0] (qubit_count ir))"
      "probs res = map normsq (amps res)" "entangledLikely res = True"
    by blast
  have "probs res = [below_half, 0, 0, below_half]"
    by (simp add: r(2,3) post_select_def np normsq_recip normsq_0)
  with r(1,4) show ?thesis by simp
qed

theorem bell_state_witness:
  "refNorm ''h'' = ''H'' \<and> refNorm ''gate.cx'' = ''CX'' \<and>
   sort_key tick_of [gate_op ''gate.cx'' [JInt 0, JInt 1] 3, gate_op ''h'' [JInt 0] 1] =
     [gate_op ''h'' [JInt 0] 1, gate_op ''gate.cx'' [JInt 0, JInt 1] 3] \<and>
   (\<exists>res. simulateCircuit no_random
      (circuit 2 [gate_op ''gate.cx'' [JInt 0, JInt 1] 3, gate_op ''h'' [JInt 0] 1]) analytic
        = Inr res \<and> probs res = [below_half, 0, 0, below_half] \<and> entangledLikely res)"
proof -
  have a: "refNorm ''h'' = ''H''" and b: "refNorm ''gate.cx'' = ''CX''"
    by (simp_all add: refNorm_def toUpperCase_def startsWith_def)
  let ?h = "gate_op ''h'' [JInt 0] 1" and ?cx = "gate_op ''gate.cx'' [JInt 0, JInt 1] 3"
  have s: "sort_key tick_of [?cx, ?h] = [?h, ?cx]"
    by (simp add: gate_op_def tick_of_def)
  have "\<exists>res. simulateCircuit no_random (circuit 2 [?cx, ?h]) analytic = Inr res \<and>
      probs res = [below_half, 0, 0, below_half] \<and> entangledLikely res"
  proof (rule bell_state[where h = ?h and cx = ?cx])
    show "circuit_qubits (circuit 2 [?cx, ?h]) = Some 2" by (simp add: circuit_def)
    show "sort_key tick_of (circuit_ops (circuit 2 [?cx, ?h])) = [?h, ?cx]"
      using s by (simp add: circuit_def)
  qed (simp_all add: gate_op_def a b)
  with a b s show ?thesis by blast
qed

text \<open>
  C2 as stated, with the probability 1/2, fails on the circuit itself: \<open>1/Math.SQRT2\<close> is
  the double 0.7071067811865475, and its square rounds to 0.4999999999999999.
\<close>

theorem bell_state_counterexample:
  "simulateCircuit no_random
     (circuit 2 [gate_op ''H'' [JInt 0] 0, gate_op ''CX'' [JInt 0, JInt 1] 1]) analytic =
   Inr \<lparr> qubits = 2, ops = 2, probs = [below_half, 0, 0, below_half],
         amps = [C recip_SQRT2 0, C 0 0, C 0 0, C recip_SQRT2 0], counts = None,
         entangledLikely = True, postSelectProb = None \<rparr> \<and>
   below_half = Fin (1 / 2 - 1 / 2 ^ 53) \<and>
   [below_half, 0, 0, below_half] \<noteq> [Fin (1 / 2), 0, 0, Fin (1 / 2)]"
  by (simp add: simulateCircuit_def qubit_count_def circuit_def gate_op_def shl1_2
      init_state_4 gate_step_def refNorm_H refNorm_CX tget_def bell_h bell_cx with_flag_def
      analytic_def toInt32_def post_select_def is_postselect_def normsq_recip normsq_0
      tick_of_def)
    (simp add: below_half_def)

subsection \<open>C3: a seeded run does not depend on \<open>Math.random\<close>\<close>

lemma rand_seeded: "rand env (Mulberry a) = (fst (mulberry32 a), Mulberry (snd (mulberry32 a)))"
  by (simp add: case_prod_beta)

lemma noise_loop_seeded:
  "\<exists>out a'. \<forall>env. noise_loop env nz cs (Mulberry a) = (out, Mulberry a')"
proof (induction cs arbitrary: a)
  case Nil
  show ?case by simp
next
  case (Cons c cs)
  define r where "r = fst (mulberry32 a)"
  define a1 where "a1 = snd (mulberry32 a)"
  have rnd: "rand env (Mulberry a) = (r, Mulberry a1)" for env
    unfolding r_def a1_def by (rule rand_seeded)
  from Cons.IH[of a1] obtain out1 a2 where
    i1: "\<And>env. noise_loop env nz cs (Mulberry a1) = (out1, Mulberry a2)" by blast
  from Cons.IH[of a] obtain out0 a0 where
    i0: "\<And>env. noise_loop env nz cs (Mulberry a) = (out0, Mulberry a0)" by blast
  consider (depol) "noise_type nz = ''DEPOLARIZING'' \<or> noise_type nz = ''depolarizing''"
    | (damp1) "\<not> (noise_type nz = ''DEPOLARIZING'' \<or> noise_type nz = ''depolarizing'')"
        "noise_type nz = ''AMP-DAMP'' \<or> noise_type nz = ''amp-damp''" "c = CHR ''1''"
    | (other) "\<not> (noise_type nz = ''DEPOLARIZING'' \<or> noise_type nz = ''depolarizing'')"
        "\<not> ((noise_type nz = ''AMP-DAMP'' \<or> noise_type nz = ''amp-damp'') \<and> c = CHR ''1'')"
    by blast
  then show ?case
  proof cases
    case depol
    have "\<forall>env. noise_loop env nz (c # cs) (Mulberry a) =
        ((if r < coalesce (noise_p nz) (noise_prob nz)
          then (if c = CHR ''1'' then CHR ''0'' else CHR ''1'') else c) # out1, Mulberry a2)"
      using depol by (auto simp: rnd i1 Let_def simp del: rand.simps)
    then show ?thesis by blast
  next
    case damp1
    have "\<forall>env. noise_loop env nz (c # cs) (Mulberry a) =
        ((if r < coalesce (noise_gamma nz) (noise_g nz) then CHR ''0'' else c) # out1,
         Mulberry a2)"
      using damp1 by (auto simp: rnd i1 Let_def simp del: rand.simps)
    then show ?thesis by blast
  next
    case other
    have "\<forall>env. noise_loop env nz (c # cs) (Mulberry a) = (c # out0, Mulberry a0)"
      using other by (auto simp: i0 Let_def)
    then show ?thesis by blast
  qed
qed

lemma applyReadoutNoise_seeded:
  "\<exists>out a'. \<forall>env. applyReadoutNoise env bits nz (Mulberry a) = (out, Mulberry a')"
proof (cases "noise_type nz = []")
  case True
  then show ?thesis by (simp add: applyReadoutNoise_def)
next
  case False
  with noise_loop_seeded[of nz bits a] show ?thesis by (simp add: applyReadoutNoise_def)
qed

lemma shots_loop_seeded:
  "shots_loop env n cdf nz k (Mulberry a) cs = shots_loop env' n cdf nz k (Mulberry a) cs"
proof (induction k arbitrary: a cs)
  case 0
  show ?case by simp
next
  case (Suc k)
  define r where "r = fst (mulberry32 a)"
  define a1 where "a1 = snd (mulberry32 a)"
  have rnd: "rand e (Mulberry a) = (r, Mulberry a1)" for e
    unfolding r_def a1_def by (rule rand_seeded)
  define bits where "bits = padStart (toString2 (nat (sampleIdx cdf r))) n"
  show ?case
  proof (cases "case nz of None \<Rightarrow> False | Some z \<Rightarrow> noise_type z \<noteq> []")
    case False
    have "shots_loop e n cdf nz (Suc k) (Mulberry a) cs =
          shots_loop e n cdf nz k (Mulberry a1) (bump cs bits)" for e
      using False by (auto simp: rnd bits_def[symmetric] Let_def simp del: rand.simps split: option.splits)
    then show ?thesis using Suc.IH[of a1 "bump cs bits"] by simp
  next
    case True
    then obtain z where z: "nz = Some z" "noise_type z \<noteq> []" by (auto split: option.splits)
    from applyReadoutNoise_seeded[of bits z a1] obtain out a2 where
      nl: "\<And>e. applyReadoutNoise e bits z (Mulberry a1) = (out, Mulberry a2)" by blast
    have "shots_loop e n cdf nz (Suc k) (Mulberry a) cs =
          shots_loop e n cdf nz k (Mulberry a2) (bump cs out)" for e
      using z by (simp add: rnd bits_def[symmetric] nl Let_def del: rand.simps)
    then show ?thesis using Suc.IH[of a2 "bump cs out"] by simp
  qed
qed

text \<open>
  Claim C3. With a seed given, the whole result of \<open>simulateCircuit\<close>, and so its
  counts, is the same whatever \<open>Math.random\<close> would have returned: for every circuit,
  shot count and noise option, two runs on the same inputs agree. The sampling and the
  noise draw from the seeded generator only.
\<close>

theorem seeded_runs_ignore_Math_random:
  assumes "opts_seed opts = Some s"
  shows "simulateCircuit env ir opts = simulateCircuit env' ir opts"
  unfolding simulateCircuit_def Let_def assms mkRNG_def option.map option.case
    shots_loop_seeded[of env _ _ _ _ _ _ env']
  by (rule refl)

theorem seeded_runs_ignore_Math_random_witness:
  "opts_seed (seeded 1 2) = Some 1 \<and>
   simulateCircuit no_random (circuit 1 [gate_op ''H'' [JInt 0] 0]) (seeded 1 2) =
   simulateCircuit half_random (circuit 1 [gate_op ''H'' [JInt 0] 0]) (seeded 1 2) \<and>
   simulateCircuit half_random (circuit 1 [gate_op ''H'' [JInt 0] 0]) (seeded 1 2) =
   Inr \<lparr> qubits = 1, ops = 1, probs = [below_half, below_half],
         amps = [C recip_SQRT2 0, C recip_SQRT2 0],
         counts = Some [(''1'', 1), (''0'', 1)],
         entangledLikely = False, postSelectProb = None \<rparr>"
proof -
  have s: "opts_seed (seeded 1 2) = Some 1" by (simp add: seeded_def)
  from seeded_runs_ignore_Math_random[OF s, where env = no_random and env' = half_random] s show ?thesis
    by (simp add: h_seeded)
qed

subsection \<open>C4: invalid targets\<close>

lemma bad_index_iff: "bad_index n q \<longleftrightarrow> \<not> isInteger q \<or> int_of q < 0 \<or> int_of q \<ge> n"
  by (cases q) (auto simp: bad_index_def)

lemma not_valid2: "bad_index n a \<or> bad_index n b \<or> a = b \<Longrightarrow> \<not> valid2 n a b"
  by (auto simp: valid2_def bad_index_iff)

lemma not_valid3:
  "bad_index n a \<or> bad_index n b \<or> bad_index n c \<or> a = b \<or> a = c \<or> b = c \<Longrightarrow>
   \<not> valid3 n a b c"
  by (auto simp: valid3_def bad_index_iff)

text \<open>
  Claim C4. A kernel called with a target that is not an integer of \<open>[0, n)\<close>, or, for
  the 2- and 3-qubit kernels, with two equal targets, returns the state it was given
  and raises nothing. The index \<open>q = n\<close> is one such target.
\<close>

theorem invalid_targets_are_noops:
  "(bad_index n q \<longrightarrow> apply1 state n q M = Inr state) \<and>
   (bad_index n a \<or> bad_index n b \<or> a = b \<longrightarrow>
      applyCX state n a b = Inr state \<and> applyCY state n a b = Inr state \<and>
      applyCZ state n a b = Inr state \<and> applySWAP state n a b = Inr state) \<and>
   (bad_index n a \<or> bad_index n b \<or> bad_index n c \<or> a = b \<or> a = c \<or> b = c \<longrightarrow>
      applyCCX state n a b c = Inr state \<and> applyCSWAP state n a b c = Inr state)"
proof (intro conjI impI)
  assume "bad_index n q"
  then show "apply1 state n q M = Inr state"
    by (simp add: apply1_def bad_index_iff)
next
  assume h: "bad_index n a \<or> bad_index n b \<or> a = b"
  have v: "\<not> valid2 n a b" by (rule not_valid2[OF h])
  show "applyCX state n a b = Inr state" using v by (simp add: applyCX_def)
  show "applyCY state n a b = Inr state" using v by (simp add: applyCY_def)
  show "applyCZ state n a b = Inr state" using v by (simp add: applyCZ_def)
  show "applySWAP state n a b = Inr state" using v by (simp add: applySWAP_def)
next
  assume h: "bad_index n a \<or> bad_index n b \<or> bad_index n c \<or> a = b \<or> a = c \<or> b = c"
  have v: "\<not> valid3 n a b c" by (rule not_valid3[OF h])
  show "applyCCX state n a b c = Inr state" using v by (simp add: applyCCX_def)
  show "applyCSWAP state n a b c = Inr state" using v by (simp add: applyCSWAP_def)
qed

theorem invalid_targets_are_noops_witness:
  "bad_index 2 (JInt 2) \<and> apply1 [C 1 0, C 0 0, C 0 0, C 0 0] 2 (JInt 2) Mx = Inr [C 1 0, C 0 0, C 0 0, C 0 0] \<and>
   applyCX [C 1 0, C 0 0, C 0 0, C 0 0] 2 (JInt 0) (JInt 2) = Inr [C 1 0, C 0 0, C 0 0, C 0 0] \<and>
   applySWAP [C 1 0, C 0 0, C 0 0, C 0 0] 2 (JInt 1) (JInt 1) = Inr [C 1 0, C 0 0, C 0 0, C 0 0] \<and>
   applyCCX [C 1 0, C 0 0, C 0 0, C 0 0] 2 (JInt 0) (JInt 1) JNonInt = Inr [C 1 0, C 0 0, C 0 0, C 0 0]"
  using invalid_targets_are_noops[of 2 "JInt 2" "[C 1 0, C 0 0, C 0 0, C 0 0]" Mx "JInt 0" "JInt 2" "JInt 2"]
    invalid_targets_are_noops[of 2 "JInt 2" "[C 1 0, C 0 0, C 0 0, C 0 0]" Mx "JInt 1" "JInt 1" "JInt 2"]
    invalid_targets_are_noops[of 2 "JInt 2" "[C 1 0, C 0 0, C 0 0, C 0 0]" Mx "JInt 0" "JInt 1" "JNonInt"]
  by (simp add: bad_index_def)

subsection \<open>C5: post-selection on zero mass\<close>

lemma js_bit_eq_bit: "0 \<le> b \<Longrightarrow> b \<le> 30 \<Longrightarrow> js_bit i b = of_bool (bit i (nat b))"
proof -
  assume b: "0 \<le> b" "b \<le> 30"
  have "int i AND 2 ^ nat b = 0 \<longleftrightarrow> \<not> bit (int i) (nat b)"
    by (rule and_exp_eq_0_iff_not_bit)
  also have "bit (int i) (nat b) = bit i (nat b)"
    by (rule bit_of_nat_iff_bit)
  finally show ?thesis using b by (simp add: js_bit_def shl1_pow)
qed

lemma ps_step_js:
  "ps_step (shl1 b) v i (psi, keep) =
     (if js_bit i b \<noteq> v then (psi[i := C 0 0], keep) else (psi, keep + normsq (psi ! i)))"
  by (simp add: ps_step_def js_bit_def Let_def)

lemma length_projected: "length (projected psi b v k) = length psi"
  by (simp add: projected_def)

lemma projected_nth:
  "i < length psi \<Longrightarrow>
   projected psi b v k ! i = (if i < k \<and> js_bit i b \<noteq> v then C 0 0 else psi ! i)"
  by (simp add: projected_def)

lemma projected_0: "projected psi b v 0 = psi"
  by (simp add: projected_def map_nth)

lemma projected_Suc_diff:
  assumes "k < length psi" "js_bit k b \<noteq> v"
  shows "(projected psi b v k)[k := C 0 0] = projected psi b v (Suc k)"
proof (rule nth_equalityI)
  show "length ((projected psi b v k)[k := C 0 0]) = length (projected psi b v (Suc k))"
    by (simp add: length_projected)
next
  fix i assume "i < length ((projected psi b v k)[k := C 0 0])"
  then have i: "i < length psi" by (simp add: length_projected)
  show "(projected psi b v k)[k := C 0 0] ! i = projected psi b v (Suc k) ! i"
  proof (cases "i = k")
    case True
    then show ?thesis using assms i by (simp add: length_projected projected_nth)
  next
    case False
    then have "i < Suc k \<longleftrightarrow> i < k" by auto
    then show ?thesis using False i by (simp add: projected_nth)
  qed
qed

lemma projected_Suc_same:
  assumes "js_bit k b = v"
  shows "projected psi b v (Suc k) = projected psi b v k"
proof (rule nth_equalityI)
  show "length (projected psi b v (Suc k)) = length (projected psi b v k)"
    by (simp add: length_projected)
next
  fix i assume "i < length (projected psi b v (Suc k))"
  then have i: "i < length psi" by (simp add: length_projected)
  show "projected psi b v (Suc k) ! i = projected psi b v k ! i"
  proof (cases "i = k")
    case True
    then show ?thesis using assms i by (simp add: projected_nth)
  next
    case False
    then have "i < Suc k \<longleftrightarrow> i < k" by auto
    then show ?thesis using i by (simp add: projected_nth)
  qed
qed

lemma mass_upto_Suc:
  "mass_upto psi b v (Suc k) =
     (if js_bit k b = v then mass_upto psi b v k + normsq (psi ! k) else mass_upto psi b v k)"
  by (simp add: mass_upto_def)

lemma ps_fold:
  "k \<le> length psi \<Longrightarrow>
   fold (ps_step (shl1 b) v) [0..<k] (psi, 0) = (projected psi b v k, mass_upto psi b v k)"
proof (induction k)
  case 0
  show ?case by (simp add: projected_0 mass_upto_def)
next
  case (Suc k)
  then have k: "k < length psi" by simp
  have "fold (ps_step (shl1 b) v) [0..<Suc k] (psi, 0) =
        ps_step (shl1 b) v k (projected psi b v k, mass_upto psi b v k)"
    using Suc by simp
  also have "\<dots> = (projected psi b v (Suc k), mass_upto psi b v (Suc k))"
  proof (cases "js_bit k b = v")
    case True
    then show ?thesis
      using k by (simp add: ps_step_js projected_Suc_same mass_upto_Suc projected_nth)
  next
    case False
    then show ?thesis
      using k by (simp add: ps_step_js projected_Suc_diff mass_upto_Suc)
  qed
  finally show ?case .
qed

text \<open>The mass is a sum of squares: it is zero only when every term is.\<close>

lemma nonneg_mass_upto: "nonneg (mass_upto psi b v k)"
proof (induction k)
  case 0
  show ?case by (simp add: mass_upto_def nonneg_zero)
next
  case (Suc k)
  then show ?case by (simp add: mass_upto_Suc nonneg_add(1) nonneg_normsq)
qed

lemma mass_upto_zero:
  "mass_upto psi b v k = 0 \<Longrightarrow> i < k \<Longrightarrow> js_bit i b = v \<Longrightarrow> normsq (psi ! i) = 0"
proof (induction k)
  case 0
  then show ?case by simp
next
  case (Suc k)
  show ?case
  proof (cases "js_bit k b = v")
    case True
    with Suc.prems(1) have "mass_upto psi b v k + normsq (psi ! k) = 0"
      by (simp add: mass_upto_Suc)
    then have z: "mass_upto psi b v k = 0" "normsq (psi ! k) = 0"
      using nonneg_add(2)[OF nonneg_mass_upto nonneg_normsq] by blast+
    show ?thesis
    proof (cases "i = k")
      case True
      then show ?thesis using z(2) by simp
    next
      case False
      then have "i < k" using Suc.prems(2) by simp
      then show ?thesis using Suc.IH z(1) Suc.prems(3) by simp
    qed
  next
    case False
    with Suc.prems(1) have z: "mass_upto psi b v k = 0" by (simp add: mass_upto_Suc)
    have "i \<noteq> k" using False Suc.prems(3) by auto
    then have "i < k" using Suc.prems(2) by simp
    then show ?thesis using Suc.IH z Suc.prems(3) by simp
  qed
qed

lemma postSelectByBit_zero_mass:
  assumes b: "0 \<le> b" "b < n" and z: "mass psi b v = 0"
  shows "postSelectByBit psi n (JInt b) v = (projected psi b v (length psi), Some 0)"
proof -
  have "fold (ps_step (shl1 b) v) [0..<length psi] (psi, 0) =
        (projected psi b v (length psi), 0)"
    using z by (simp add: ps_fold mass_def)
  then show ?thesis using b by (simp add: postSelectByBit_def)
qed

lemma probs_zero_mass:
  assumes z: "mass psi b v = 0"
  shows "map normsq (projected psi b v (length psi)) = replicate (length psi) 0"
proof (rule nth_equalityI)
  show "length (map normsq (projected psi b v (length psi))) = length (replicate (length psi) 0)"
    by (simp add: length_projected)
next
  fix i assume "i < length (map normsq (projected psi b v (length psi)))"
  then have i: "i < length psi" by (simp add: length_projected)
  show "map normsq (projected psi b v (length psi)) ! i = replicate (length psi) 0 ! i"
  proof (cases "js_bit i b = v")
    case True
    then show ?thesis
      using i mass_upto_zero[of psi b v "length psi" i] z
      by (simp add: length_projected projected_nth mass_def)
  next
    case False
    then show ?thesis using i by (simp add: length_projected projected_nth normsq_0)
  qed
qed

text \<open>
  Claim C5, amended. If the first postselect note of the operation list, the one that
  is honored, is on an in-range qubit whose expected bit value has zero probability
  mass in the evolved state, then the result of \<open>simulateCircuit\<close> has
  \<open>postSelectProb = 0\<close> and every probability zero; in its amplitude vector every
  amplitude of a basis state with the other bit value is zero, and every amplitude of a
  basis state with the expected bit value is the one of the evolved state, not
  renormalized. The mass is the sum of \<open>re*re + im*im\<close> over the basis states whose bit
  for that qubit has the expected value, in doubles as the simulator computes it.
\<close>

theorem zero_mass_postselection:
  assumes sim: "simulateCircuit env ir opts = Inr res"
    and first: "find is_postselect (circuit_ops ir) = Some nt"
    and tg: "op_targets nt = Some (JInt b # bs)"
    and b: "0 \<le> b" "b < qubit_count ir"
    and ev: "evolve (qubit_count ir) (sort_key tick_of (circuit_ops ir))
               (init_state (shl1 (qubit_count ir)), False) = Inr (psi, e)"
    and z: "mass psi b (expect_of nt) = 0"
  shows "postSelectProb res = Some 0 \<and>
         probs res = replicate (length psi) 0 \<and>
         amps res = map (\<lambda>i. if js_bit i b = expect_of nt then psi ! i else C 0 0)
                      [0..<length psi]"
proof -
  from simulateCircuit_InrD[OF sim] ev have
    a: "amps res = fst (post_select (circuit_ops ir) psi (qubit_count ir))" and
    p: "postSelectProb res = snd (post_select (circuit_ops ir) psi (qubit_count ir))" and
    r: "probs res = map normsq (amps res)"
    by auto
  have "post_select (circuit_ops ir) psi (qubit_count ir) =
        (projected psi b (expect_of nt) (length psi), Some 0)"
    by (simp add: post_select_def first tg postSelectByBit_zero_mass[OF b z])
  moreover have "projected psi b (expect_of nt) (length psi) =
      map (\<lambda>i. if js_bit i b = expect_of nt then psi ! i else C 0 0) [0..<length psi]"
    by (simp add: projected_def)
  ultimately show ?thesis using probs_zero_mass[OF z] by (simp add: a p r)
qed

theorem zero_mass_postselection_witness:
  "find is_postselect (circuit_ops (circuit 1 [postselect_note [JInt 0] 1 1])) =
     Some (postselect_note [JInt 0] 1 1) \<and>
   mass [C 1 0, C 0 0] 0 (expect_of (postselect_note [JInt 0] 1 1)) = 0 \<and>
   simulateCircuit no_random (circuit 1 [postselect_note [JInt 0] 1 1]) analytic =
     Inr \<lparr> qubits = 1, ops = 0, probs = [0, 0], amps = [C 0 0, C 0 0], counts = None,
           entangledLikely = False, postSelectProb = Some 0 \<rparr> \<and>
   postSelectProb \<lparr> qubits = 1, ops = 0, probs = [0, 0], amps = [C 0 0, C 0 0],
           counts = None, entangledLikely = False, postSelectProb = Some 0 \<rparr> = Some 0"
proof -
  let ?nt = "postselect_note [JInt 0] 1 1"
  let ?ir = "circuit 1 [?nt]"
  let ?res = "\<lparr> qubits = 1, ops = 0, probs = [0, 0], amps = [C 0 0, C 0 0], counts = None,
           entangledLikely = False, postSelectProb = Some 0 \<rparr>"
  have q: "qubit_count ?ir = 1" by (simp add: qubit_count_def circuit_def)
  have f: "find is_postselect (circuit_ops ?ir) = Some ?nt"
    by (simp add: circuit_def is_postselect_def postselect_note_def)
  have t: "op_targets ?nt = Some (JInt 0 # [])" by (simp add: postselect_note_def)
  have ev: "evolve (qubit_count ?ir) (sort_key tick_of (circuit_ops ?ir))
      (init_state (shl1 (qubit_count ?ir)), False) = Inr ([C 1 0, C 0 0], False)"
    unfolding q by (simp add: shl1_1 init_state_2 circuit_def gate_step_def postselect_note_def)
  have z: "mass [C 1 0, C 0 0] 0 (expect_of ?nt) = 0"
    by (simp add: mass_def mass_upto_def js_bit_def shl1_0 expect_of_def postselect_note_def
        normsq_0 truthy_1 upt_rec)
  from zero_mass_postselection[OF one_note f t _ _ ev z] q
  have "postSelectProb ?res = Some 0" by simp
  with f z one_note show ?thesis by blast
qed

text \<open>
  C5 as stated fails on the zero-mass branch itself. One qubit, RY with the angle
  \<open>2^-600\<close> and a note expecting 1: the evolved state has the amplitudes 1 and \<open>2^-601\<close>,
  the square of the second is rounded to 0, so the mass of the expected value is 0 and
  \<open>postSelectProb\<close> is 0, and the amplitude \<open>2^-601\<close> is left in the result. It also
  fails for a note that is not the first: one qubit in \<open>|0>\<close>, a first note expecting 0
  and a second expecting 1. The second has zero mass, the first is applied, and the
  result keeps the amplitude 1 with \<open>postSelectProb = 1\<close>.
\<close>

theorem zero_mass_counterexample:
  "evolve 1 (sort_key tick_of [rot_op ''RY'' [JInt 0] tiny_angle 0, postselect_note [JInt 0] 1 1])
     (init_state (shl1 1), False) = Inr ([C 1 0, C tiny 0], False) \<and>
   mass [C 1 0, C tiny 0] 0 (expect_of (postselect_note [JInt 0] 1 1)) = 0 \<and>
   simulateCircuit no_random
     (circuit 1 [rot_op ''RY'' [JInt 0] tiny_angle 0, postselect_note [JInt 0] 1 1]) analytic =
   Inr \<lparr> qubits = 1, ops = 1, probs = [0, 0], amps = [C 0 0, C tiny 0], counts = None,
         entangledLikely = False, postSelectProb = Some 0 \<rparr> \<and>
   C tiny 0 \<noteq> C 0 0 \<and>
   is_postselect (postselect_note [JInt 0] 1 1) \<and>
   postselect_note [JInt 0] 1 1 \<in>
     set (circuit_ops (circuit 1 [postselect_note [JInt 0] 0 5, postselect_note [JInt 0] 1 1])) \<and>
   evolve 1 (sort_key tick_of [postselect_note [JInt 0] 0 5, postselect_note [JInt 0] 1 1])
     (init_state (shl1 1), False) = Inr ([C 1 0, C 0 0], False) \<and>
   mass [C 1 0, C 0 0] 0 (expect_of (postselect_note [JInt 0] 1 1)) = 0 \<and>
   simulateCircuit no_random
     (circuit 1 [postselect_note [JInt 0] 0 5, postselect_note [JInt 0] 1 1]) analytic =
   Inr \<lparr> qubits = 1, ops = 0, probs = [1, 0], amps = [C 1 0, C 0 0], counts = None,
         entangledLikely = False, postSelectProb = Some 1 \<rparr>"
proof -
  have s: "sort_key tick_of [rot_op ''RY'' [JInt 0] tiny_angle 0, postselect_note [JInt 0] 1 1]
      = [rot_op ''RY'' [JInt 0] tiny_angle 0, postselect_note [JInt 0] 1 1]"
    by (simp add: rot_op_def postselect_note_def tick_of_def)
  have ev: "evolve 1 [rot_op ''RY'' [JInt 0] tiny_angle 0, postselect_note [JInt 0] 1 1]
      (init_state (shl1 1), False) = Inr ([C 1 0, C tiny 0], False)"
    by (simp add: rot_op_def postselect_note_def shl1_1 init_state_2 gate_step_def refNorm_rotations
        tget_def theta_of_def ry_tiny with_flag_def)
  have m: "mass [C 1 0, C tiny 0] 0 (expect_of (postselect_note [JInt 0] 1 1)) = 0"
    by (simp add: mass_def mass_upto_def js_bit_def shl1_0 expect_of_def postselect_note_def
        normsq_tiny truthy_1 upt_rec)
  have sim: "simulateCircuit no_random
       (circuit 1 [rot_op ''RY'' [JInt 0] tiny_angle 0, postselect_note [JInt 0] 1 1]) analytic =
     Inr \<lparr> qubits = 1, ops = 1, probs = [0, 0], amps = [C 0 0, C tiny 0], counts = None,
           entangledLikely = False, postSelectProb = Some 0 \<rparr>"
    by (simp add: simulateCircuit_def qubit_count_def circuit_def rot_op_def
        postselect_note_def shl1_1 init_state_2 gate_step_def refNorm_rotations tget_def theta_of_def
        ry_tiny with_flag_def tick_of_def analytic_def toInt32_def post_select_def
        is_postselect_def expect_of_def truthy_1 postSelectByBit_def shl1_0 ps_step_def
        upt_rec normsq_tiny normsq_0)
  have n: "C tiny 0 \<noteq> C 0 0" using tiny_not_zero by simp
  have l: "is_postselect (postselect_note [JInt 0] 1 1) \<and>
      postselect_note [JInt 0] 1 1 \<in>
        set (circuit_ops (circuit 1 [postselect_note [JInt 0] 0 5, postselect_note [JInt 0] 1 1])) \<and>
      evolve 1 (sort_key tick_of [postselect_note [JInt 0] 0 5, postselect_note [JInt 0] 1 1])
        (init_state (shl1 1), False) = Inr ([C 1 0, C 0 0], False) \<and>
      mass [C 1 0, C 0 0] 0 (expect_of (postselect_note [JInt 0] 1 1)) = 0"
    by (simp add: is_postselect_def postselect_note_def circuit_def tick_of_def gate_step_def
        shl1_1 init_state_2 mass_def mass_upto_def js_bit_def shl1_0 expect_of_def normsq_0
        truthy_1 upt_rec)
  from s ev m sim n l two_notes show ?thesis by simp
qed

subsection \<open>C6: sampling from an all-zero vector\<close>

lemma cdf_loop_zeros:
  "\<forall>p\<in>set ps. p = 0 \<Longrightarrow> cdf_loop ps 0 acc = (acc @ replicate (length ps) 0, 0)"
proof (induction ps arbitrary: acc)
  case Nil
  then show ?case by simp
next
  case (Cons p ps)
  then show ?case by (simp add: replicate_app_Cons_same)
qed

lemma cdfFromProbs_zeros:
  "\<forall>p\<in>set ps. p = 0 \<Longrightarrow> cdfFromProbs ps = replicate (length ps) 0"
  by (simp add: cdfFromProbs_def cdf_loop_zeros)

lemma sampleLoop_zeros_pos:
  "0 < r \<Longrightarrow> 0 \<le> lo \<Longrightarrow> lo \<le> hi \<Longrightarrow> hi < int N \<Longrightarrow>
   sampleLoop (replicate N 0) r lo hi = hi"
proof (induction "replicate N (0::double)" r lo hi rule: sampleLoop.induct)
  case (1 r lo hi)
  show ?case
  proof (cases "lo < hi")
    case False
    with 1 show ?thesis by simp
  next
    case True
    let ?mid = "(lo + hi) div 2"
    have m: "lo \<le> ?mid" "?mid < hi" using True by auto
    then have a: "aget (replicate N (0::double)) ?mid = Some 0"
      using 1(4-6) by (simp add: aget_def)
    have "sampleLoop (replicate N 0) r (?mid + 1) hi = hi"
      using 1(1)[OF True refl _ ] a 1(3-6) m by simp
    then show ?thesis using True a 1(3) by (subst sampleLoop.simps) simp
  qed
qed

lemma sampleLoop_zeros_nonpos:
  "\<not> 0 < r \<Longrightarrow> 0 \<le> lo \<Longrightarrow> hi < int N \<Longrightarrow>
   sampleLoop (replicate N 0) r lo hi = lo"
proof (induction "replicate N (0::double)" r lo hi rule: sampleLoop.induct)
  case (1 r lo hi)
  show ?case
  proof (cases "lo < hi")
    case False
    then show ?thesis by simp
  next
    case True
    let ?mid = "(lo + hi) div 2"
    have m: "lo \<le> ?mid" "?mid < hi" using True by auto
    then have a: "aget (replicate N (0::double)) ?mid = Some 0"
      using 1(4-5) by (simp add: aget_def)
    have "sampleLoop (replicate N 0) r lo ?mid = lo"
      using 1(2)[OF True refl _ ] a 1(3-5) m by simp
    then show ?thesis using True a 1(3) by (subst sampleLoop.simps) simp
  qed
qed

text \<open>
  Claim C6, amended. When every probability is 0 the cumulative distribution is
  all-zero, and a draw resolves to index 0 only for \<open>r = 0\<close> (or on the empty vector):
  for every \<open>r\<close> above 0 the binary search finds no entry that is not less than \<open>r\<close>
  and ends on the last index.
\<close>

theorem zero_probs_sampling:
  "\<forall>p\<in>set ps. p = 0 \<Longrightarrow>
   cdfFromProbs ps = replicate (length ps) 0 \<and>
   sampleIdx (cdfFromProbs ps) r = (if 0 < r \<and> ps \<noteq> [] then int (length ps) - 1 else 0)"
proof -
  assume z: "\<forall>p\<in>set ps. p = 0"
  have c: "cdfFromProbs ps = replicate (length ps) 0" by (rule cdfFromProbs_zeros[OF z])
  have "sampleLoop (replicate (length ps) 0) r 0 (int (length ps) - 1) =
        (if 0 < r \<and> ps \<noteq> [] then int (length ps) - 1 else 0)"
  proof (cases "0 < r \<and> ps \<noteq> []")
    case True
    then have "0 \<le> int (length ps) - 1" by (cases ps) auto
    then show ?thesis using True sampleLoop_zeros_pos[of r 0 "int (length ps) - 1" "length ps"]
      by simp
  next
    case False
    show ?thesis
    proof (cases "ps = []")
      case True
      then show ?thesis by simp
    next
      case False
      with \<open>\<not> (0 < r \<and> ps \<noteq> [])\<close> have "\<not> 0 < r" by auto
      then show ?thesis
        using sampleLoop_zeros_nonpos[of r 0 "int (length ps) - 1" "length ps"] by simp
    qed
  qed
  with c show ?thesis by (simp add: sampleIdx_def)
qed

theorem zero_probs_sampling_witness:
  "cdfFromProbs [0, 0, 0] = [0, 0, 0] \<and>
   sampleIdx (cdfFromProbs [0, 0, 0]) (Fin (1 / 4)) = 2"
proof -
  have h: "\<forall>p\<in>set [0, 0, 0 :: double]. p = 0" by simp
  note t = zero_probs_sampling[OF h, of "Fin (1 / 4)"]
  have a: "cdfFromProbs [0, 0, 0] = [0, 0, 0]"
    using t[THEN conjunct1] by (simp add: numeral_3_eq_3)
  have b: "sampleIdx (cdfFromProbs [0, 0, 0]) (Fin (1 / 4)) = 2"
    using t[THEN conjunct2] by (simp add: zero_double_def)
  from a b show ?thesis by blast
qed

text \<open>C6 as stated fails on two zero probabilities with \<open>r = 1/2\<close>: the draw is index 1.\<close>

theorem zero_probs_counterexample:
  "cdfFromProbs [0, 0] = [0, 0] \<and> (0::double) \<le> Fin (1 / 2) \<and> Fin (1 / 2) < (1::double) \<and>
   sampleIdx (cdfFromProbs [0, 0]) (Fin (1 / 2)) = 1"
  by (simp add: cdfFromProbs_def sampleIdx_def aget_def zero_double_def one_double_def rd_0)

subsection \<open>C7: the flag \<open>entangledLikely\<close>\<close>

text \<open>
  Claim C7. The flag that \<open>simulateCircuit\<close> returns is true exactly when some
  operation of kind gate is dispatched to CX, CY, CZ, SWAP, CCX, CCNOT or CSWAP, valid
  targets or not; it is false on a circuit of single-qubit gates, unknown gates or no
  gates. Up to 30 qubits the call does return.
\<close>

theorem entangledLikely_flag:
  "(\<forall>res. simulateCircuit env ir opts = Inr res \<longrightarrow>
      entangledLikely res = (\<exists>x\<in>set (circuit_ops ir). multi_qubit_gate x)) \<and>
   (qubit_count ir \<le> 30 \<longrightarrow> (\<exists>res. simulateCircuit env ir opts = Inr res))"
proof (intro conjI allI impI)
  fix res assume "simulateCircuit env ir opts = Inr res"
  from simulateCircuit_InrD[OF this] obtain psi1 where
    "evolve (qubit_count ir) (sort_key tick_of (circuit_ops ir))
       (init_state (shl1 (qubit_count ir)), False) = Inr (psi1, entangledLikely res)"
    by blast
  from evolve_flag[OF this]
  show "entangledLikely res = (\<exists>x\<in>set (circuit_ops ir). multi_qubit_gate x)" by simp
next
  assume "qubit_count ir \<le> 30"
  then show "\<exists>res. simulateCircuit env ir opts = Inr res" by (rule simulateCircuit_total)
qed

theorem entangledLikely_flag_witness:
  "qubit_count (circuit 1 [gate_op ''X'' [JInt 0] 0]) \<le> 30 \<and>
   simulateCircuit no_random (circuit 1 [gate_op ''X'' [JInt 0] 0]) analytic =
     Inr \<lparr> qubits = 1, ops = 1, probs = [0, 1], amps = [C 0 0, C 1 0], counts = None,
           entangledLikely = False, postSelectProb = None \<rparr> \<and>
   \<not> multi_qubit_gate (gate_op ''X'' [JInt 0] 0)"
proof -
  let ?ir = "circuit 1 [gate_op ''X'' [JInt 0] 0]"
  have q: "qubit_count ?ir \<le> 30" by (simp add: qubit_count_def circuit_def)
  from entangledLikely_flag[where env = no_random and ir = ?ir and opts = analytic,
      THEN conjunct1, rule_format, OF x_circuit]
  have "\<not> multi_qubit_gate (gate_op ''X'' [JInt 0] 0)" by (simp add: circuit_def)
  with q x_circuit show ?thesis by blast
qed

subsection \<open>C8: spellings of a gate reference\<close>

lemma refNorm_spelling: "bare_name g \<Longrightarrow> spelling_of g r \<Longrightarrow> refNorm r = toUpperCase g"
  by (auto simp: bare_name_def spelling_of_def refNorm_def startsWith_def Let_def)

lemma respelledE:
  assumes "respelled x y"
  obtains "x = y" | r where "is_gate x" "y = x\<lparr>op_ref := r\<rparr>" "refNorm (op_ref x) = refNorm r"
  using assms unfolding respelled_def by blast

lemma respelled_tick: "respelled x y \<Longrightarrow> tick_of x = tick_of y"
  by (erule respelledE) (simp_all add: tick_of_def)

lemma gate_step_fields:
  assumes "op_type x = op_type y" "refNorm (op_ref x) = refNorm (op_ref y)"
    "op_targets x = op_targets y" "theta_of x = theta_of y"
  shows "gate_step n x s = gate_step n y s"
  unfolding gate_step_def Let_def assms by (rule refl)

lemma respelled_gate_step:
  assumes "respelled x y"
  shows "gate_step n x s = gate_step n y s"
  using assms
proof (cases rule: respelledE)
  case 1
  then show ?thesis by simp
next
  case (2 r)
  show ?thesis
    by (rule gate_step_fields) (simp_all add: 2 theta_of_def)
qed

lemma respelled_is_gate: "respelled x y \<Longrightarrow> is_gate x = is_gate y"
  by (erule respelledE) (simp_all add: is_gate_def)

lemma respelled_postselect:
  "respelled x y \<Longrightarrow> (is_postselect x \<longleftrightarrow> is_postselect y) \<and> (is_postselect x \<longrightarrow> x = y)"
  by (erule respelledE) (auto simp: is_gate_def is_postselect_def)

lemma respelled_insort:
  "list_all2 respelled xs ys \<Longrightarrow> respelled x y \<Longrightarrow>
   list_all2 respelled (insort_key tick_of x xs) (insort_key tick_of y ys)"
proof (induction rule: list_all2_induct)
  case Nil
  then show ?case by simp
next
  case (Cons a as b bs)
  then show ?case by (simp add: respelled_tick[of a b] respelled_tick[of x y])
qed

lemma respelled_sort:
  "list_all2 respelled xs ys \<Longrightarrow>
   list_all2 respelled (sort_key tick_of xs) (sort_key tick_of ys)"
  by (induction rule: list_all2_induct) (simp_all add: respelled_insort)

lemma respelled_evolve:
  "list_all2 respelled xs ys \<Longrightarrow> evolve n xs s = evolve n ys s"
proof (induction arbitrary: s rule: list_all2_induct)
  case Nil
  then show ?case by simp
next
  case (Cons a as b bs)
  then show ?case by (simp add: respelled_gate_step[of a b] cong: sum.case_cong)
qed

lemma respelled_find:
  "list_all2 respelled xs ys \<Longrightarrow> find is_postselect xs = find is_postselect ys"
proof (induction rule: list_all2_induct)
  case Nil
  then show ?case by simp
next
  case (Cons a as b bs)
  from respelled_postselect[OF Cons.hyps(1)]
  have p: "is_postselect a = is_postselect b" and q: "is_postselect a \<Longrightarrow> a = b"
    by simp_all
  show ?case
  proof (cases "is_postselect a")
    case True
    with q have "a = b" by simp
    with True show ?thesis by simp
  next
    case False
    with p have "\<not> is_postselect b" by simp
    with False Cons.IH show ?thesis by simp
  qed
qed

lemma respelled_count:
  "list_all2 respelled xs ys \<Longrightarrow> length (filter is_gate xs) = length (filter is_gate ys)"
proof (induction rule: list_all2_induct)
  case Nil
  then show ?case by simp
next
  case (Cons a as b bs)
  from respelled_is_gate[OF Cons.hyps(1)] Cons.IH show ?case by simp
qed

lemma respelled_simulate:
  assumes "list_all2 respelled xs ys"
  shows "simulateCircuit env (ir\<lparr>circuit_ops := xs\<rparr>) opts =
         simulateCircuit env (ir\<lparr>circuit_ops := ys\<rparr>) opts"
proof -
  have "evolve n (sort_key tick_of xs) s = evolve n (sort_key tick_of ys) s" for n s
    by (rule respelled_evolve[OF respelled_sort[OF assms]])
  moreover have "finish env opts n k xs r = finish env opts n k ys r" for n k r
    by (rule finish_cong[OF respelled_find[OF assms]])
  ultimately show ?thesis
    by (simp add: simulateCircuit_finish qubit_count_def respelled_count[OF assms])
qed

text \<open>
  Claim C8. Any two spellings of a bare gate name, in any case and with or without the
  \<open>gate.\<close> prefix, select the same branch of the dispatch, and replacing one by the
  other in a gate operation, anywhere in the list, leaves the result of
  \<open>simulateCircuit\<close> as it is.
\<close>

theorem gate_spellings_agree:
  assumes g: "bare_name g" and r: "spelling_of g r" and r': "spelling_of g r'"
    and x: "is_gate x"
  shows "refNorm r = refNorm r' \<and>
         simulateCircuit env (ir\<lparr>circuit_ops := pre @ x\<lparr>op_ref := r\<rparr> # post\<rparr>) opts =
         simulateCircuit env (ir\<lparr>circuit_ops := pre @ x\<lparr>op_ref := r'\<rparr> # post\<rparr>) opts"
proof
  show n: "refNorm r = refNorm r'"
    using refNorm_spelling[OF g r] refNorm_spelling[OF g r'] by simp
  have "respelled (x\<lparr>op_ref := r\<rparr>) (x\<lparr>op_ref := r'\<rparr>)"
    using x n by (simp add: respelled_def is_gate_def)
  moreover have "list_all2 respelled zs zs" for zs
    by (simp add: list_all2_refl respelled_def)
  ultimately have "list_all2 respelled (pre @ x\<lparr>op_ref := r\<rparr> # post) (pre @ x\<lparr>op_ref := r'\<rparr> # post)"
    by (intro list_all2_appendI) simp_all
  then show "simulateCircuit env (ir\<lparr>circuit_ops := pre @ x\<lparr>op_ref := r\<rparr> # post\<rparr>) opts =
         simulateCircuit env (ir\<lparr>circuit_ops := pre @ x\<lparr>op_ref := r'\<rparr> # post\<rparr>) opts"
    by (rule respelled_simulate)
qed

theorem gate_spellings_agree_witness:
  "bare_name ''x'' \<and> spelling_of ''x'' ''GATE.X'' \<and> spelling_of ''x'' ''X'' \<and>
   refNorm ''GATE.X'' = refNorm ''X'' \<and>
   simulateCircuit no_random (circuit 1 [gate_op ''GATE.X'' [JInt 0] 0]) analytic =
   simulateCircuit no_random (circuit 1 [gate_op ''X'' [JInt 0] 0]) analytic"
proof -
  have b: "bare_name ''x''"
    by (simp add: bare_name_def toUpperCase_def startsWith_def)
  have r: "spelling_of ''x'' ''GATE.X''" and r': "spelling_of ''x'' ''X''"
    by (simp_all add: spelling_of_def toUpperCase_def)
  have g: "is_gate (gate_op [] [JInt 0] 0)" by (simp add: is_gate_def gate_op_def)
  from gate_spellings_agree[OF b r r' g, where env = no_random and ir = "circuit 1 []"
      and pre = "[]" and post = "[]" and opts = analytic]
  have "refNorm ''GATE.X'' = refNorm ''X''"
    and "simulateCircuit no_random (circuit 1 [gate_op ''GATE.X'' [JInt 0] 0]) analytic =
         simulateCircuit no_random (circuit 1 [gate_op ''X'' [JInt 0] 0]) analytic"
    by (simp_all add: circuit_def gate_op_def)
  with b r r' show ?thesis by blast
qed

subsection \<open>C9: which postselect note is honored\<close>



subsection \<open>C10: unknown gates\<close>

text \<open>
  Claim C10. An operation of kind gate whose reference matches no supported gate
  leaves the state (and the flag) as they are; the field \<open>ops\<close> counts every operation
  of kind gate; and adding such an operation anywhere in the list changes the result
  in that count only, which grows by one.
\<close>

theorem unknown_gate_counted:
  assumes u: "unknown_gate u"
  shows "gate_step n u (psi, e) = Inr (psi, e) \<and>
    (\<forall>res. simulateCircuit env ir opts = Inr res \<longrightarrow>
       ops res = length (filter is_gate (circuit_ops ir))) \<and>
    simulateCircuit env (ir\<lparr>circuit_ops := pre @ u # post\<rparr>) opts =
      map_sum id (\<lambda>r. r\<lparr>ops := Suc (ops r)\<rparr>)
        (simulateCircuit env (ir\<lparr>circuit_ops := pre @ post\<rparr>) opts)"
proof (intro conjI allI impI)
  show "gate_step n u (psi, e) = Inr (psi, e)" by (rule gate_step_unknown[OF u])
next
  fix res assume "simulateCircuit env ir opts = Inr res"
  then show "ops res = length (filter is_gate (circuit_ops ir))"
    by (auto simp: simulateCircuit_finish finish_def Let_def split: if_splits sum.splits)
next
  let ?n = "qubit_count ir"
  let ?s = "(init_state (shl1 ?n), False)"
  have g: "is_gate u" using u by (simp add: unknown_gate_def)
  have np: "\<not> is_postselect u" using g by (auto simp: is_gate_def is_postselect_def)
  have "evolve ?n (sort_key tick_of (pre @ u # post)) ?s =
        evolve ?n (sort_key tick_of (filter (\<lambda>x. \<not> unknown_gate x) (pre @ u # post))) ?s"
    by (rule evolve_sort_filter) (simp add: gate_step_unknown)
  also have "\<dots> = evolve ?n (sort_key tick_of (filter (\<lambda>x. \<not> unknown_gate x) (pre @ post))) ?s"
    using u by simp
  also have "\<dots> = evolve ?n (sort_key tick_of (pre @ post)) ?s"
    by (rule evolve_sort_filter[symmetric]) (simp add: gate_step_unknown)
  finally have ev: "evolve ?n (sort_key tick_of (pre @ u # post)) ?s =
      evolve ?n (sort_key tick_of (pre @ post)) ?s" .
  have fin: "finish env opts ?n k (pre @ u # post) r = finish env opts ?n k (pre @ post) r" for k r
    by (rule finish_cong) (simp add: find_append_not[of is_postselect u, OF np])
  show "simulateCircuit env (ir\<lparr>circuit_ops := pre @ u # post\<rparr>) opts =
      map_sum id (\<lambda>r. r\<lparr>ops := Suc (ops r)\<rparr>)
        (simulateCircuit env (ir\<lparr>circuit_ops := pre @ post\<rparr>) opts)"
    using g by (simp add: simulateCircuit_finish qubit_count_def ev[unfolded qubit_count_def]
        fin[unfolded qubit_count_def] finish_Suc)
qed

theorem unknown_gate_counted_witness:
  "unknown_gate (gate_op ''FOO'' [JInt 0] 0) \<and>
   gate_step 1 (gate_op ''FOO'' [JInt 0] 0) ([C 1 0, C 0 0], False) =
     Inr ([C 1 0, C 0 0], False) \<and>
   simulateCircuit no_random
     (circuit 1 [gate_op ''FOO'' [JInt 0] 0, gate_op ''X'' [JInt 0] 0]) analytic =
     Inr \<lparr> qubits = 1, ops = 2, probs = [0, 1], amps = [C 0 0, C 1 0], counts = None,
           entangledLikely = False, postSelectProb = None \<rparr>"
proof -
  have u: "unknown_gate (gate_op ''FOO'' [JInt 0] 0)"
    by (simp add: unknown_gate_def is_gate_def gate_op_def refNorm_def toUpperCase_def
        startsWith_def single_qubit_names_def multi_qubit_names_def)
  note t = unknown_gate_counted[OF u, where n = 1 and psi = "[C 1 0, C 0 0]" and e = False
      and env = no_random and ir = "circuit 1 []" and opts = analytic and pre = "[]"
      and post = "[gate_op ''X'' [JInt 0] 0]"]
  have a: "gate_step 1 (gate_op ''FOO'' [JInt 0] 0) ([C 1 0, C 0 0], False) =
     Inr ([C 1 0, C 0 0], False)"
    using t by blast
  have "simulateCircuit no_random
     (circuit 1 [gate_op ''FOO'' [JInt 0] 0, gate_op ''X'' [JInt 0] 0]) analytic =
     map_sum id (\<lambda>r. r\<lparr>ops := Suc (ops r)\<rparr>)
       (simulateCircuit no_random (circuit 1 [gate_op ''X'' [JInt 0] 0]) analytic)"
    using t by (simp add: circuit_def)
  then have "simulateCircuit no_random
     (circuit 1 [gate_op ''FOO'' [JInt 0] 0, gate_op ''X'' [JInt 0] 0]) analytic =
     Inr \<lparr> qubits = 1, ops = 2, probs = [0, 1], amps = [C 0 0, C 1 0], counts = None,
           entangledLikely = False, postSelectProb = None \<rparr>"
    by (simp add: x_circuit)
  with u a show ?thesis by blast
qed

end
